theory Spec2Isabelle
  imports Complex_Main "HOL-Library.Log_Nat" "HOL-Library.Sublist"
begin

section \<open>Numbers\<close>

text \<open>
  The scripts compute with JavaScript Numbers. Lengths and coordinates are modelled as
  rationals (\<^typ>\<open>rat\<close>): every finite double is a rational. The model of the whole
  run computes sums, differences and products exactly. The packer is modelled a second
  time with every sum, difference and product rounded to the nearest double
  (\<open>findInHeapD\<close>, \<open>fitBlockD\<close>, \<open>fitD\<close> below): where a placed block ends depends on
  that rounding.
\<close>

section \<open>Blocks (packer-blocks.js)\<close>

text \<open>
  A rectangle in corner form. Heap entries of the packer are such objects, and a block
  carries the same four properties once \<open>findInHeap\<close> has placed it, so \<open>intersect\<close>
  takes either. Before a block is placed the four properties are unset in the source
  and never read; the constructor below sets them to 0.
\<close>

record rect =
  x0 :: rat
  y0 :: rat
  x1 :: rat
  y1 :: rat

text \<open>The sub-objects \<open>dimensions\<close> and \<open>rotatedDimensions\<close> of a block
  (properties \<open>w\<close>, \<open>h\<close>, \<open>dx\<close>, \<open>dy\<close>).\<close>

record dims =
  dims_w :: rat
  dims_h :: rat
  dims_dx :: rat
  dims_dy :: rat

text \<open>
  The block object. The references to the host item and document and the copies of
  \<open>padding\<close> and \<open>margin\<close> are used only when the item is moved on the page and are
  left out. \<open>binIndex\<close> is \<open>undefined\<close> (\<open>None\<close>) until a packer sets it; \<open>packed\<close> is
  \<open>undefined\<close> (falsy, \<open>False\<close>) until \<open>findInHeap\<close> sets it.
\<close>

record block = rect +
  index :: nat
  w :: rat
  h :: rat
  dx :: rat
  dy :: rat
  isRotated :: bool
  dimensions :: dims
  rotatedDimensions :: dims
  binIndex :: "nat option"
  packed :: bool

text \<open>What the constructor reads from the host application for one page item:
  the array returned by \<open>getItemBoundsIllustrator\<close> / \<open>getItemBoundsIndesign\<close>, and the
  item's \<open>left\<close>, \<open>top\<close>, \<open>geometricBounds\<close> and \<open>visibleBounds\<close>.\<close>

record item =
  itemBounds :: "rat \<times> rat \<times> rat \<times> rat"
  item_left :: rat
  item_top :: rat
  geometricBounds :: "rat \<times> rat \<times> rat \<times> rat"
  visibleBounds :: "rat \<times> rat \<times> rat \<times> rat"

datatype app = Illustrator | InDesign

text \<open>\<open>Block.prototype.rotate\<close>: swap the block between 0 and 90 degrees.\<close>

definition rotateBlock :: "block \<Rightarrow> block" where
  "rotateBlock b =
     (if w b = h b then b
      else
        (let r = \<not> isRotated b;
             d = (if r then rotatedDimensions b else dimensions b)
         in b\<lparr>isRotated := r, w := dims_w d, h := dims_h d, dx := dims_dx d, dy := dims_dy d\<rparr>))"

text \<open>The constructor \<open>Block(settings, item, index)\<close>; of \<open>settings\<close> it reads
  \<open>padding\<close> and \<open>forceRotate\<close>.\<close>

definition Block :: "app \<Rightarrow> rat \<Rightarrow> bool \<Rightarrow> item \<Rightarrow> nat \<Rightarrow> block" where
  "Block ap pad forceRotate it idx =
     (case itemBounds it of (b0, b1, b2, b3) \<Rightarrow>
      case geometricBounds it of (g0, g1, g2, g3) \<Rightarrow>
      case visibleBounds it of (v0, v1, v2, v3) \<Rightarrow>
        (let bw = (case ap of Illustrator \<Rightarrow> b2 - b0 + pad | InDesign \<Rightarrow> b3 - b1 + pad);
             bh = (case ap of Illustrator \<Rightarrow> b1 - b3 + pad | InDesign \<Rightarrow> b2 - b0 + pad);
             bdx = (case ap of Illustrator \<Rightarrow> item_left it - b0 | InDesign \<Rightarrow> g1 - b1);
             bdy = (case ap of Illustrator \<Rightarrow> item_top it - b1 | InDesign \<Rightarrow> g0 - b0);
             this = \<lparr>x0 = 0, y0 = 0, x1 = 0, y1 = 0,
                     index = idx, w = bw, h = bh, dx = bdx, dy = bdy,
                     isRotated = False,
                     dimensions = \<lparr>dims_w = bw, dims_h = bh, dims_dx = bdx, dims_dy = bdy\<rparr>,
                     rotatedDimensions =
                       \<lparr>dims_w = bh, dims_h = bw, dims_dx = - bdy, dims_dy = v2 - b2\<rparr>,
                     binIndex = None, packed = False\<rparr>
         in if forceRotate then rotateBlock this else this))"

text \<open>
  The states a block object can be in: the two dimension sets are the ones the
  constructor builds (width and height exchanged), the current \<open>w\<close>, \<open>h\<close>, \<open>dx\<close>, \<open>dy\<close>
  are those of the set that \<open>isRotated\<close> selects, and a block is only ever marked
  rotated when its two sides differ. The constructor establishes this and \<open>rotate\<close>
  keeps it (lemmas \<open>Block_blockInv\<close>, \<open>rotate_blockInv\<close>).
\<close>

definition blockInv :: "block \<Rightarrow> bool" where
  "blockInv b =
     (dims_w (rotatedDimensions b) = dims_h (dimensions b) \<and>
      dims_h (rotatedDimensions b) = dims_w (dimensions b) \<and>
      (if isRotated b
       then w b = dims_w (rotatedDimensions b) \<and> h b = dims_h (rotatedDimensions b) \<and>
            dx b = dims_dx (rotatedDimensions b) \<and> dy b = dims_dy (rotatedDimensions b) \<and>
            dims_w (dimensions b) \<noteq> dims_h (dimensions b)
       else w b = dims_w (dimensions b) \<and> h b = dims_h (dimensions b) \<and>
            dx b = dims_dx (dimensions b) \<and> dy b = dims_dy (dimensions b)))"

section \<open>The packer (Packer.js)\<close>

text \<open>The packer object: the rotation flag and the size of \<open>_root\<close> (whose \<open>x\<close> and
  \<open>y\<close> are always 0 and never read). \<open>this.heap\<close> is set anew by every \<open>fit\<close> and is
  threaded through the functions below.\<close>

record packer =
  allow90DegreeRotation :: bool
  root_w :: rat
  root_h :: rat

definition Packer :: "rat \<Rightarrow> rat \<Rightarrow> bool \<Rightarrow> packer" where
  "Packer bw bh allow = \<lparr>allow90DegreeRotation = (allow = True), root_w = bw, root_h = bh\<rparr>"

text \<open>\<open>intersect\<close>: the intersecting rectangle of two rectangles, or \<open>null\<close>. The
  comparisons are inclusive, so rectangles that only touch give a rectangle of width
  or height 0.\<close>

definition intersect :: "'a rect_scheme \<Rightarrow> 'b rect_scheme \<Rightarrow> rect option" where
  "intersect block0 block1 =
     (let ix0 = max (x0 block0) (x0 block1);
          ix1 = min (x1 block0) (x1 block1);
          iy0 = max (y0 block0) (y0 block1);
          iy1 = min (y1 block0) (y1 block1)
      in if ix0 \<le> ix1 \<and> iy0 \<le> iy1
         then Some \<lparr>x0 = ix0, y0 = iy0, x1 = ix1, y1 = iy1\<rparr>
         else None)"

definition chunkContains :: "rect \<Rightarrow> rect \<Rightarrow> bool" where
  "chunkContains heapBlock0 heapBlock1 =
     (x0 heapBlock0 \<le> x0 heapBlock1 \<and> y0 heapBlock0 \<le> y0 heapBlock1 \<and>
      x1 heapBlock1 \<le> x1 heapBlock0 \<and> y1 heapBlock1 \<le> y1 heapBlock0)"

text \<open>\<open>expand(heapBlock0, heapBlock1)\<close> mutates its second argument only; the model
  returns the new \<open>heapBlock1\<close>. The second test reads the \<open>y0\<close>, \<open>y1\<close> that the first
  statement may have written.\<close>

definition expandY :: "rect \<Rightarrow> rect \<Rightarrow> rect" where
  "expandY heapBlock0 heapBlock1 =
     (if x0 heapBlock0 \<le> x0 heapBlock1 \<and> x1 heapBlock1 \<le> x1 heapBlock0 \<and>
         y0 heapBlock1 \<le> y1 heapBlock0
      then heapBlock1\<lparr>y0 := min (y0 heapBlock0) (y0 heapBlock1),
                      y1 := max (y1 heapBlock0) (y1 heapBlock1)\<rparr>
      else heapBlock1)"

definition expandX :: "rect \<Rightarrow> rect \<Rightarrow> rect" where
  "expandX heapBlock0 heapBlock1 =
     (if y0 heapBlock0 \<le> y0 heapBlock1 \<and> y1 heapBlock1 \<le> y1 heapBlock0 \<and>
         x0 heapBlock1 \<le> x1 heapBlock0
      then heapBlock1\<lparr>x0 := min (x0 heapBlock0) (x0 heapBlock1),
                      x1 := max (x1 heapBlock0) (x1 heapBlock1)\<rparr>
      else heapBlock1)"

definition expand :: "rect \<Rightarrow> rect \<Rightarrow> rect" where
  "expand heapBlock0 heapBlock1 = expandX heapBlock0 (expandY heapBlock0 heapBlock1)"

text \<open>\<open>unionMax\<close>: its assignments of \<open>null\<close> go to the local parameters and have no
  effect; what remains is the mutation of the two objects by the two calls of
  \<open>expand\<close>. The model returns both objects.\<close>

definition unionMax :: "rect option \<Rightarrow> rect option \<Rightarrow> rect option \<times> rect option" where
  "unionMax heapBlock0 heapBlock1 =
     (case (heapBlock0, heapBlock1) of
        (Some hb0, Some hb1) \<Rightarrow>
          (case intersect hb0 hb1 of
             None \<Rightarrow> (heapBlock0, heapBlock1)
           | Some i \<Rightarrow>
               if chunkContains hb0 hb1 then (heapBlock0, heapBlock1)
               else if chunkContains hb1 hb0 then (heapBlock0, heapBlock1)
               else (let hb1' = expand hb0 hb1;
                         hb0' = expand hb1' hb0
                     in (Some hb0', Some hb1')))
      | _ \<Rightarrow> (heapBlock0, heapBlock1))"

text \<open>The body of the inner loop of \<open>unionAll\<close> for the indices \<open>i\<close> and \<open>j\<close>. The
  heap entries are distinct objects, so the mutation by \<open>unionMax\<close> is the update of
  the two entries.\<close>

definition unionStep :: "nat \<Rightarrow> nat \<Rightarrow> rect option list \<Rightarrow> rect option list" where
  "unionStep i j heap =
     (if i \<noteq> j then
        (case unionMax (heap ! i) (heap ! j) of (hi, hj) \<Rightarrow>
           (let heap1 = heap[i := hi, j := hj]
            in case (heap1 ! i, heap1 ! j) of
                 (Some a, Some b) \<Rightarrow>
                   if chunkContains b a then heap1[i := None]
                   else if chunkContains a b then heap1[j := None]
                   else heap1
               | _ \<Rightarrow> heap1))
      else heap)"

text \<open>\<open>unionAll\<close>: the two nested loops over all index pairs (the length of the heap
  does not change in them), then the removal of the nulled entries.\<close>

definition unionAll :: "rect option list \<Rightarrow> rect list" where
  "unionAll heap =
     (let n = length heap;
          heap1 = fold (\<lambda>i hp. fold (unionStep i) [0..<n] hp) [0..<n] heap
      in concat (map (\<lambda>e. case e of None \<Rightarrow> [] | Some hb \<Rightarrow> [hb]) heap1))"

text \<open>\<open>findInHeap\<close>: the first heap entry, in heap order, that is at least as wide
  and as high as the block; the block is placed at its top-left corner. The heap holds
  no \<open>null\<close> when it is searched, so the test \<open>heapBlock &&\<close> is always true. The
  model returns the block (mutated or not) with the boolean result.\<close>

fun findInHeap :: "block \<Rightarrow> rect list \<Rightarrow> block \<times> bool" where
  "findInHeap block [] = (block, False)"
| "findInHeap block (heapBlock # heap) =
     (if w block \<le> x1 heapBlock - x0 heapBlock \<and> h block \<le> y1 heapBlock - y0 heapBlock
      then (block\<lparr>x0 := x0 heapBlock, y0 := y0 heapBlock,
                  x1 := x0 heapBlock + w block, y1 := y0 heapBlock + h block,
                  packed := True\<rparr>, True)
      else findInHeap block heap)"

text \<open>What \<open>adjustHeap\<close> pushes for a heap entry and its intersection with the
  block: the parts of the entry above, to the right of, below and to the left of the
  intersection, each only when it is not empty.\<close>

definition slivers :: "rect \<Rightarrow> rect \<Rightarrow> rect option list" where
  "slivers heapBlock overlap =
     (if y1 overlap \<noteq> y1 heapBlock
      then [Some \<lparr>x0 = x0 heapBlock, y0 = y1 overlap, x1 = x1 heapBlock, y1 = y1 heapBlock\<rparr>]
      else []) @
     (if x1 overlap \<noteq> x1 heapBlock
      then [Some \<lparr>x0 = x1 overlap, y0 = y0 heapBlock, x1 = x1 heapBlock, y1 = y1 heapBlock\<rparr>]
      else []) @
     (if y0 heapBlock \<noteq> y0 overlap
      then [Some \<lparr>x0 = x0 heapBlock, y0 = y0 heapBlock, x1 = x1 heapBlock, y1 = y0 overlap\<rparr>]
      else []) @
     (if x0 heapBlock \<noteq> x0 overlap
      then [Some \<lparr>x0 = x0 heapBlock, y0 = y0 heapBlock, x1 = x0 overlap, y1 = y1 heapBlock\<rparr>]
      else [])"

text \<open>The body of the loop of \<open>adjustHeap\<close> for the index \<open>i\<close>: an entry that
  intersects the block is replaced by \<open>null\<close> after its slivers are pushed. The entry
  read is never \<open>null\<close> (lemma \<open>adjustLoop_reads\<close>); the source would raise a TypeError
  on one.\<close>

definition adjustStep :: "block \<Rightarrow> nat \<Rightarrow> rect option list \<Rightarrow> rect option list" where
  "adjustStep block i heap =
     (case heap ! i of
        None \<Rightarrow> heap
      | Some heapBlock \<Rightarrow>
          (case intersect heapBlock block of
             None \<Rightarrow> heap
           | Some overlap \<Rightarrow> (heap @ slivers heapBlock overlap)[i := None]))"

definition adjustLoop :: "block \<Rightarrow> nat \<Rightarrow> rect option list \<Rightarrow> rect option list" where
  "adjustLoop block n heap = fold (adjustStep block) [0..<n] heap"

text \<open>\<open>adjustHeap\<close>: between the calls the heap holds no \<open>null\<close> (\<open>unionAll\<close> removes
  them), which the type \<^typ>\<open>rect list\<close> records.\<close>

definition adjustHeap :: "block \<Rightarrow> rect list \<Rightarrow> rect list" where
  "adjustHeap block heap = unionAll (adjustLoop block (length heap) (map Some heap))"

text \<open>The object \<open>fit\<close> returns, and the variables of its loop: the same four
  together with the heap (\<open>count\<close> is filled in at the return).\<close>

record fit_result =
  count :: nat
  area :: rat
  packedBlocks :: "block list"
  remainingBlocks :: "block list"

record fit_state = fit_result +
  heap :: "rect list"

text \<open>The body of the loop of \<open>fit\<close> for one block.\<close>

definition fitBlock :: "packer \<Rightarrow> nat \<Rightarrow> fit_state \<Rightarrow> block \<Rightarrow> fit_state" where
  "fitBlock this binIdx st block0 =
     (case findInHeap block0 (heap st) of (block1, found1) \<Rightarrow>
        (case (if found1 then (block1, adjustHeap block1 (heap st))
               else if allow90DegreeRotation this then
                 (case findInHeap (rotateBlock block1) (heap st) of (block2, found2) \<Rightarrow>
                    if found2 then (block2, adjustHeap block2 (heap st))
                    else (block2, heap st))
               else (block1, heap st)) of
           (block, heap') \<Rightarrow>
             if packed block
             then st\<lparr>heap := heap',
                     packedBlocks := packedBlocks st @ [block\<lparr>binIndex := Some binIdx\<rparr>],
                     area := area st + w block * h block\<rparr>
             else st\<lparr>heap := heap',
                     remainingBlocks := remainingBlocks st @ [block]\<rparr>))"

definition fit :: "packer \<Rightarrow> block list \<Rightarrow> nat \<Rightarrow> fit_result" where
  "fit this blocks binIdx =
     (let st0 = \<lparr>count = 0, area = 0, packedBlocks = [], remainingBlocks = [],
                 heap = [\<lparr>x0 = 0, y0 = 0, x1 = root_w this, y1 = root_h this\<rparr>]\<rparr>;
          st = foldl (fitBlock this binIdx) st0 blocks
      in \<lparr>count = length (packedBlocks st), area = area st,
          packedBlocks = packedBlocks st, remainingBlocks = remainingBlocks st\<rparr>)"

section \<open>The packer in double precision (Packer.js)\<close>

text \<open>
  A JavaScript Number is an IEEE 754 double, and the result of \<open>+\<close>, \<open>-\<close> and \<open>*\<close> is the
  exact result rounded to the nearest double, ties to the even significand. \<open>dbl x\<close>
  is that double for an exact result \<open>x\<close> in the normal range (\<open>\<bar>x\<bar>\<close> from \<open>2 ^ -1022\<close> up
  to, not including, \<open>2 ^ 1024\<close>; overflow and subnormal numbers are not modelled): when
  \<open>\<bar>x\<bar>\<close> lies from \<open>2 ^ e\<close> up to \<open>2 ^ (e + 1)\<close>, the doubles around \<open>x\<close> are the multiples
  of \<open>2 ^ (e - 52)\<close>. A decimal literal such as \<open>0.7\<close> denotes \<open>dbl (7 / 10)\<close>.
\<close>

definition roundHalfEven :: "rat \<Rightarrow> int" where
  "roundHalfEven x =
     (let f = \<lfloor>x\<rfloor>; d = x - of_int f
      in if d < 1 / 2 then f else if 1 / 2 < d then f + 1 else if even f then f else f + 1)"

text \<open>The exponent \<open>e\<close> with \<open>2\<^sup>e \<le> x < 2\<^sup>e\<^sup>+\<^sup>1\<close>, for \<open>0 < x\<close>.\<close>

definition exponent2 :: "rat \<Rightarrow> int" where
  "exponent2 x =
     (if 1 \<le> x then int (floorlog 2 (nat \<lfloor>x\<rfloor>)) - 1
      else - int (floorlog 2 (nat (\<lceil>1 / x\<rceil> - 1))))"

definition pow2 :: "int \<Rightarrow> rat" where
  "pow2 e = (if 0 \<le> e then 2 ^ nat e else 1 / 2 ^ nat (- e))"

definition dbl :: "rat \<Rightarrow> rat" where
  "dbl x =
     (if x = 0 then 0
      else (let ulp = pow2 (exponent2 \<bar>x\<bar> - 52)
            in sgn x * of_int (roundHalfEven (\<bar>x\<bar> / ulp)) * ulp))"

text \<open>\<open>findInHeap\<close> with the rounding of its four arithmetic operations: the test
  compares the block's width with the rounded difference \<open>heapBlock.x1 - heapBlock.x0\<close>,
  and the placement stores the rounded sum \<open>heapBlock.x0 + block.w\<close>.\<close>

fun findInHeapD :: "block \<Rightarrow> rect list \<Rightarrow> block \<times> bool" where
  "findInHeapD block [] = (block, False)"
| "findInHeapD block (heapBlock # theHeap) =
     (if w block \<le> dbl (x1 heapBlock - x0 heapBlock) \<and>
         h block \<le> dbl (y1 heapBlock - y0 heapBlock)
      then (block\<lparr>x0 := x0 heapBlock, y0 := y0 heapBlock,
                  x1 := dbl (x0 heapBlock + w block), y1 := dbl (y0 heapBlock + h block),
                  packed := True\<rparr>, True)
      else findInHeapD block theHeap)"

text \<open>The body of the loop of \<open>fit\<close> and \<open>fit\<close> itself, with \<open>findInHeapD\<close> and the
  rounding of \<open>area += block.w * block.h\<close>. \<open>adjustHeap\<close>, \<open>unionAll\<close> and \<open>rotate\<close> only
  compare and copy numbers and are the functions above.\<close>

definition fitBlockD :: "packer \<Rightarrow> nat \<Rightarrow> fit_state \<Rightarrow> block \<Rightarrow> fit_state" where
  "fitBlockD this binIdx st block0 =
     (case findInHeapD block0 (heap st) of (block1, found1) \<Rightarrow>
        (case (if found1 then (block1, adjustHeap block1 (heap st))
               else if allow90DegreeRotation this then
                 (case findInHeapD (rotateBlock block1) (heap st) of (block2, found2) \<Rightarrow>
                    if found2 then (block2, adjustHeap block2 (heap st))
                    else (block2, heap st))
               else (block1, heap st)) of
           (block, heap') \<Rightarrow>
             if packed block
             then st\<lparr>heap := heap',
                     packedBlocks := packedBlocks st @ [block\<lparr>binIndex := Some binIdx\<rparr>],
                     area := dbl (area st + dbl (w block * h block))\<rparr>
             else st\<lparr>heap := heap',
                     remainingBlocks := remainingBlocks st @ [block]\<rparr>))"

definition fitD :: "packer \<Rightarrow> block list \<Rightarrow> nat \<Rightarrow> fit_result" where
  "fitD this blocks binIdx =
     (let st0 = \<lparr>count = 0, area = 0, packedBlocks = [], remainingBlocks = [],
                 heap = [\<lparr>x0 = 0, y0 = 0, x1 = root_w this, y1 = root_h this\<rparr>]\<rparr>;
          st = foldl (fitBlockD this binIdx) st0 blocks
      in \<lparr>count = length (packedBlocks st), area = area st,
          packedBlocks = packedBlocks st, remainingBlocks = remainingBlocks st\<rparr>)"

section \<open>Scores as JavaScript Numbers\<close>

text \<open>
  The score of an attempt is computed with divisions whose divisor can be 0, so it can
  be \<open>Infinity\<close>, \<open>-Infinity\<close> or \<open>NaN\<close>. Finite values are exact rationals; a zero
  divisor in this program is always \<open>+0\<close> (a length, or a sum that starts at \<open>0\<close>).
\<close>

datatype jsnum = Num rat | PosInf | NegInf | NaN

fun jadd :: "jsnum \<Rightarrow> jsnum \<Rightarrow> jsnum" where
  "jadd NaN _ = NaN"
| "jadd _ NaN = NaN"
| "jadd PosInf NegInf = NaN"
| "jadd NegInf PosInf = NaN"
| "jadd PosInf _ = PosInf"
| "jadd _ PosInf = PosInf"
| "jadd NegInf _ = NegInf"
| "jadd _ NegInf = NegInf"
| "jadd (Num a) (Num b) = Num (a + b)"

fun jneg :: "jsnum \<Rightarrow> jsnum" where
  "jneg (Num a) = Num (- a)"
| "jneg PosInf = NegInf"
| "jneg NegInf = PosInf"
| "jneg NaN = NaN"

definition jsub :: "jsnum \<Rightarrow> jsnum \<Rightarrow> jsnum" where
  "jsub a b = jadd a (jneg b)"

text \<open>An infinity with the sign of \<open>a\<close> (for \<open>a \<noteq> 0\<close>).\<close>

definition signedInf :: "rat \<Rightarrow> jsnum" where
  "signedInf a = (if 0 < a then PosInf else NegInf)"

fun jmul :: "jsnum \<Rightarrow> jsnum \<Rightarrow> jsnum" where
  "jmul NaN _ = NaN"
| "jmul _ NaN = NaN"
| "jmul (Num a) (Num b) = Num (a * b)"
| "jmul (Num a) PosInf = (if a = 0 then NaN else signedInf a)"
| "jmul (Num a) NegInf = (if a = 0 then NaN else signedInf (- a))"
| "jmul PosInf (Num b) = (if b = 0 then NaN else signedInf b)"
| "jmul NegInf (Num b) = (if b = 0 then NaN else signedInf (- b))"
| "jmul PosInf PosInf = PosInf"
| "jmul NegInf NegInf = PosInf"
| "jmul PosInf NegInf = NegInf"
| "jmul NegInf PosInf = NegInf"

fun jdiv :: "jsnum \<Rightarrow> jsnum \<Rightarrow> jsnum" where
  "jdiv NaN _ = NaN"
| "jdiv _ NaN = NaN"
| "jdiv (Num a) (Num b) =
     (if b = 0 then (if a = 0 then NaN else signedInf a) else Num (a / b))"
| "jdiv (Num a) PosInf = Num 0"
| "jdiv (Num a) NegInf = Num 0"
| "jdiv PosInf (Num b) = (if 0 \<le> b then PosInf else NegInf)"
| "jdiv NegInf (Num b) = (if 0 \<le> b then NegInf else PosInf)"
| "jdiv PosInf PosInf = NaN"
| "jdiv PosInf NegInf = NaN"
| "jdiv NegInf PosInf = NaN"
| "jdiv NegInf NegInf = NaN"

text \<open>The comparison \<open>a > b\<close>; false when either side is \<open>NaN\<close>.\<close>

fun jgt :: "jsnum \<Rightarrow> jsnum \<Rightarrow> bool" where
  "jgt NaN _ = False"
| "jgt _ NaN = False"
| "jgt (Num a) (Num b) = (b < a)"
| "jgt PosInf PosInf = False"
| "jgt PosInf _ = True"
| "jgt _ PosInf = False"
| "jgt NegInf _ = False"
| "jgt (Num a) NegInf = True"

section \<open>Sorting (Bin Packing--Artboards.js, packer-blocks.js)\<close>

text \<open>
  \<open>Array.prototype.sort\<close> with a comparator \<open>key(b) - key(a)\<close> sorts by descending key;
  the order of equal keys is left to the implementation, and the model keeps their
  input order (a stable insertion sort on the negated key).
\<close>

definition sortDescending :: "(block \<Rightarrow> rat) \<Rightarrow> block list \<Rightarrow> block list" where
  "sortDescending key blocks = sort_key (\<lambda>b. - key b) blocks"

text \<open>The loop of \<open>sortBlocksByInterleaving\<close>: one from the larger half, one from the
  smaller half, until both are used up.\<close>

fun interleave :: "'a list \<Rightarrow> 'a list \<Rightarrow> 'a list" where
  "interleave (x # xs) (y # ys) = x # y # interleave xs ys"
| "interleave (x # xs) [] = x # interleave xs []"
| "interleave [] (y # ys) = y # interleave [] ys"
| "interleave [] [] = []"

definition sortBlocksByInterleaving :: "block list \<Rightarrow> block list" where
  "sortBlocksByInterleaving blocks =
     (let sorted = sortDescending (\<lambda>b. w b * h b) blocks;
          half = (length sorted + 1) div 2;
          largerBlocks = take half sorted;
          smallerBlocks = drop half sorted
      in interleave largerBlocks smallerBlocks)"

text \<open>
  \<open>shuffle\<close> (Fisher-Yates): \<open>i\<close> runs from the last index down to 0 and the element at
  \<open>i\<close> is swapped with the one at \<open>j = Math.floor(Math.random() * (i + 1))\<close>, an index in
  \<open>0..i\<close>. The draws are a parameter: \<open>rnd i\<close> is reduced modulo \<open>i + 1\<close>.
\<close>

fun shuffleLoop :: "(nat \<Rightarrow> nat) \<Rightarrow> nat \<Rightarrow> 'a list \<Rightarrow> 'a list" where
  "shuffleLoop rnd 0 things = things"
| "shuffleLoop rnd (Suc i) things =
     (let j = rnd i mod (i + 1);
          temp = things ! i
      in shuffleLoop rnd i (things[i := things ! j, j := temp]))"

definition shuffle :: "(nat \<Rightarrow> nat) \<Rightarrow> 'a list \<Rightarrow> 'a list" where
  "shuffle rnd things = shuffleLoop rnd (length things) things"

text \<open>\<open>sortBlocks(attempt, sortType)\<close> on the attempt's \<open>remainingBlocks\<close>; the sort type
  is an attempt index or \<open>Infinity\<close> (\<open>None\<close>).\<close>

definition sortBlocks :: "(nat \<Rightarrow> nat) \<Rightarrow> nat option \<Rightarrow> block list \<Rightarrow> block list" where
  "sortBlocks rnd sortType blocks =
     (if sortType = Some 0 then sortDescending (\<lambda>b. w b * h b) blocks
      else if sortType = Some 1 then sortDescending (\<lambda>b. max (w b) (h b)) blocks
      else if sortType = Some 2 then sortDescending w blocks
      else if sortType = Some 3 then sortDescending h blocks
      else if sortType = Some 4 then sortBlocksByInterleaving blocks
      else shuffle rnd blocks)"

section \<open>Attempts (packer-blocks.js, Bin Packing--Artboards.js)\<close>

text \<open>A bin: its bounds \<open>[T, L, B, R]\<close> and the width and height given to the packer.\<close>

record bin =
  bounds :: "rat \<times> rat \<times> rat \<times> rat"
  width :: rat
  height :: rat

text \<open>
  The attempt object: the four properties it shares with the result of \<open>fit\<close>
  (\<open>count\<close> stays 0), the number of bins used, the attempt's index (\<open>index\<close> in the
  source) and the score. The reference to the bins and the texts \<open>info\<close> and
  \<open>sortType\<close>, which are only displayed, are left out.
\<close>

record attempt = fit_result +
  binCount :: nat
  attemptIndex :: nat
  score :: jsnum

definition Attempt :: "nat \<Rightarrow> bin list \<Rightarrow> attempt" where
  "Attempt idx bins =
     \<lparr>count = 0, area = 0, packedBlocks = [], remainingBlocks = [],
      binCount = length bins, attemptIndex = idx, score = Num 0\<rparr>"

text \<open>
  The settings, with \<open>padding\<close> and \<open>margin\<close> already in points. \<open>artboards\<close> are the
  rectangles \<open>[L, T, R, B]\<close> of the document's artboards; \<open>maxAttemptCount\<close> is
  \<open>undefined\<close> (\<open>None\<close>) or a whole number.
\<close>

record settings =
  items :: "item list"
  artboards :: "(rat \<times> rat \<times> rat \<times> rat) list"
  padding :: rat
  margin :: rat
  settings_allow90DegreeRotation :: bool
  allowAnyRotation :: bool
  bestFitBy :: string
  maxAttemptCount :: "int option"
  tryHarder :: bool
  doNotSort :: bool
  debugBinBounds :: bool
  forceRotate :: bool

text \<open>What the run takes from outside: the rotation of a page item to its minimal
  bounds (\<open>items[j].rotate(-findRotationByMinimalBoundsIllustrator(items[j]))\<close>, a
  change of the host document) and the random draws of the shuffle of each attempt.\<close>

record host =
  minimalBounds :: "item \<Rightarrow> item"
  random :: "nat \<Rightarrow> nat \<Rightarrow> nat"

definition artboardRectToBinBounds :: "rat \<times> rat \<times> rat \<times> rat \<Rightarrow> rat \<times> rat \<times> rat \<times> rat" where
  "artboardRectToBinBounds rect = (case rect of (r0, r1, r2, r3) \<Rightarrow> (- r1, r0, - r3, r2))"

text \<open>The loop that makes the bins.\<close>

definition makeBins :: "settings \<Rightarrow> bin list" where
  "makeBins s =
     map (\<lambda>rect.
            (case artboardRectToBinBounds rect of (b0, b1, b2, b3) \<Rightarrow>
               (let binBounds = (b0 + margin s, b1 + margin s, b2 - margin s, b3 - margin s)
                in case binBounds of (c0, c1, c2, c3) \<Rightarrow>
                     \<lparr>bounds = binBounds, width = c3 - c1 + padding s,
                      height = c2 - c0 + padding s\<rparr>)))
         (artboards s)"

text \<open>
  A number that is whole or \<open>-Infinity\<close>: the bound of the attempts loop.
  \<open>getMaxAttemptCount\<close> is \<open>Math.min(200, 4 + Math.floor(Math.log(n) / Math.log(2) * 5))\<close>;
  \<open>Math.log(0)\<close> is \<open>-Infinity\<close>, and for \<open>n > 0\<close> the model takes the exact
  logarithm (lemma \<open>getMaxAttemptCount_log\<close>).
\<close>

datatype count_bound = MinusInfinity | Finite int

fun below :: "nat \<Rightarrow> count_bound \<Rightarrow> bool" where
  "below a MinusInfinity = False"
| "below a (Finite n) = (int a < n)"

fun boundNat :: "count_bound \<Rightarrow> nat" where
  "boundNat MinusInfinity = 0"
| "boundNat (Finite n) = nat n"

definition getMaxAttemptCount :: "nat \<Rightarrow> count_bound" where
  "getMaxAttemptCount itemCount =
     (if itemCount = 0 then MinusInfinity
      else Finite (min 200 (4 + (int (floorlog 2 (itemCount ^ 5)) - 1))))"

text \<open>\<open>randomAttempt ? 1 : (settings.maxAttemptCount || getMaxAttemptCount(items.length))\<close>;
  0 is falsy.\<close>

definition maxAttemptCountOf :: "settings \<Rightarrow> bool \<Rightarrow> count_bound" where
  "maxAttemptCountOf s randomAttempt =
     (if randomAttempt then Finite 1
      else (case maxAttemptCount s of
              None \<Rightarrow> getMaxAttemptCount (length (items s))
            | Some n \<Rightarrow> if n = 0 then getMaxAttemptCount (length (items s)) else Finite n))"

text \<open>\<open>bestFitBy = settings.bestFitBy || 'count'; preferCount = (bestFitBy == 'count')\<close>.\<close>

definition preferCount :: "settings \<Rightarrow> bool" where
  "preferCount s = (bestFitBy s = [] \<or> bestFitBy s = ''count'')"

text \<open>The body of the bins loop for the bin of index \<open>i\<close>.\<close>

definition binStep :: "settings \<Rightarrow> nat \<Rightarrow> rat \<Rightarrow> nat \<Rightarrow> bin \<Rightarrow> attempt \<Rightarrow> attempt" where
  "binStep s totalItemCount totalItemArea i bn att =
     (let packer = Packer (width bn) (height bn) (settings_allow90DegreeRotation s);
          result = fit packer (remainingBlocks att) i;
          scoreFactor =
            (if preferCount s
             then jdiv (Num (of_nat totalItemCount)) (Num (of_nat (count result)))
             else jdiv (Num totalItemArea) (Num (area result)))
      in att\<lparr>area := area att + area result,
             binCount := i + 1,
             packedBlocks := packedBlocks att @ packedBlocks result,
             remainingBlocks := remainingBlocks result,
             score := jadd (score att)
                        (jmul (jdiv (Num (width bn * height bn)) (Num (area result)))
                              scoreFactor)\<rparr>)"

text \<open>The bins loop, from the bin of index \<open>i\<close> on; it stops when no block remains.\<close>

fun binsLoop :: "settings \<Rightarrow> nat \<Rightarrow> rat \<Rightarrow> nat \<Rightarrow> bin list \<Rightarrow> attempt \<Rightarrow> attempt" where
  "binsLoop s totalItemCount totalItemArea i [] att = att"
| "binsLoop s totalItemCount totalItemArea i (bn # bins) att =
     (let att1 = binStep s totalItemCount totalItemArea i bn att
      in if remainingBlocks att1 = [] then att1
         else binsLoop s totalItemCount totalItemArea (i + 1) bins att1)"

text \<open>The variables of the attempts loop that change: the items (rotated in the
  host document when \<open>allowAnyRotation\<close> is set), \<open>totalItemArea\<close>, \<open>bestAttempt\<close>
  (\<open>undefined\<close> at first), and a record, kept for the statements only, of every
  attempt made together with the best attempt after it.\<close>

record loop_vars =
  loopItems :: "item list"
  totalItemArea :: rat
  bestAttempt :: "attempt option"
  attemptLog :: "(attempt \<times> attempt) list"

text \<open>The blocks of an attempt: one fresh block for each item, in item order.\<close>

definition makeBlocks :: "settings \<Rightarrow> item list \<Rightarrow> block list" where
  "makeBlocks s its =
     map (\<lambda>(j, it). Block Illustrator (padding s) (forceRotate s) it j) (enumerate 0 its)"

text \<open>The attempt of index \<open>a\<close>, from its sorted blocks: the bins loop and the two
  closing adjustments of the score.\<close>

definition packAttempt :: "settings \<Rightarrow> rat \<Rightarrow> nat \<Rightarrow> block list \<Rightarrow> attempt" where
  "packAttempt s tia a blocks =
     (let bins = makeBins s;
          att0 = (Attempt a bins)\<lparr>remainingBlocks := blocks\<rparr>;
          att1 = binsLoop s (length (items s)) tia 0 bins att0;
          att2 = att1\<lparr>score := jadd (score att1)
                    (Num (of_int ((int (length bins) - int (binCount att1)) * 100)))\<rparr>;
          att3 = att2\<lparr>score := jsub (score att2)
                    (Num (of_nat (length (remainingBlocks att2) * 100)))\<rparr>
      in att3)"

text \<open>The items, the total item area and the sorted blocks of the pass of index \<open>a\<close>.\<close>

definition stepItems :: "host \<Rightarrow> settings \<Rightarrow> loop_vars \<Rightarrow> item list" where
  "stepItems hst s v =
     (if allowAnyRotation s then map (minimalBounds hst) (loopItems v) else loopItems v)"

definition stepArea :: "host \<Rightarrow> settings \<Rightarrow> nat \<Rightarrow> loop_vars \<Rightarrow> rat" where
  "stepArea hst s a v =
     (if a = 0
      then foldl (\<lambda>t b. t + w b * h b) (totalItemArea v) (makeBlocks s (stepItems hst s v))
      else totalItemArea v)"

definition stepBlocks :: "host \<Rightarrow> settings \<Rightarrow> bool \<Rightarrow> nat \<Rightarrow> loop_vars \<Rightarrow> block list" where
  "stepBlocks hst s randomAttempt a v =
     (let blocks = makeBlocks s (stepItems hst s v)
      in if \<not> doNotSort s
         then sortBlocks (random hst a) (if randomAttempt then None else Some a) blocks
         else blocks)"

text \<open>One pass of the attempts loop for the index \<open>a\<close>, up to the choice of the best
  attempt.\<close>

definition attemptStep :: "host \<Rightarrow> settings \<Rightarrow> bool \<Rightarrow> nat \<Rightarrow> loop_vars \<Rightarrow> loop_vars" where
  "attemptStep hst s randomAttempt a v =
     (let att = packAttempt s (stepArea hst s a v) a (stepBlocks hst s randomAttempt a v);
          best = (case bestAttempt v of
                    None \<Rightarrow> att
                  | Some b \<Rightarrow> if jgt (score att) (score b) then att else b)
      in \<lparr>loopItems = stepItems hst s v, totalItemArea = stepArea hst s a v,
          bestAttempt = Some best, attemptLog = attemptLog v @ [(att, best)]\<rparr>)"

text \<open>The attempts loop from the index \<open>a\<close> on, with its two early exits.\<close>

function attemptsLoop :: "host \<Rightarrow> settings \<Rightarrow> bool \<Rightarrow> nat \<Rightarrow> loop_vars \<Rightarrow> loop_vars" where
  "attemptsLoop hst s randomAttempt a v =
     (if below a (maxAttemptCountOf s randomAttempt) then
        (let v1 = attemptStep hst s randomAttempt a v
         in if doNotSort s then v1
            else if \<not> tryHarder s \<and> a > 4 \<and>
                    (case bestAttempt v1 of None \<Rightarrow> False | Some b \<Rightarrow> remainingBlocks b = [])
            then v1
            else attemptsLoop hst s randomAttempt (a + 1) v1)
      else v)"
  by pat_completeness auto
termination
  by (relation "measure (\<lambda>(hst, s, randomAttempt, a, v).
                  boundNat (maxAttemptCountOf s randomAttempt) - a)")
     (auto elim: below.elims)

declare attemptsLoop.simps [simp del]

text \<open>
  \<open>packItemsIllustrator\<close>. Reading a property of \<open>bestAttempt\<close> when it is still
  \<open>undefined\<close> raises a TypeError. The moves of the items on the artboards, the
  progress window, the selection and the results dialog are effects on the host and
  are left out; what is returned is what they are computed from.
\<close>

datatype js_error = TypeError

definition initialVars :: "settings \<Rightarrow> loop_vars" where
  "initialVars s =
     \<lparr>loopItems = items s, totalItemArea = 0, bestAttempt = None, attemptLog = []\<rparr>"

record run_result =
  best :: attempt
  attempts :: "(attempt \<times> attempt) list"
  finalPackedBlockCount :: nat
  remainingBlockCount :: int

datatype outcome = BinBoundsDrawn | Done run_result

definition packItemsIllustrator :: "host \<Rightarrow> settings \<Rightarrow> bool \<Rightarrow> js_error + outcome" where
  "packItemsIllustrator hst s randomAttempt =
     (if debugBinBounds s then Inr BinBoundsDrawn
      else
        (let v = attemptsLoop hst s randomAttempt 0 (initialVars s)
         in case bestAttempt v of
              None \<Rightarrow> Inl TypeError
            | Some b \<Rightarrow>
                (let finalPacked = length (packedBlocks b)
                 in Inr (Done \<lparr>best = b, attempts = attemptLog v,
                               finalPackedBlockCount = finalPacked,
                               remainingBlockCount =
                                 int (length (items s)) - int finalPacked\<rparr>))))"

text \<open>
  The script itself: with no document or nothing selected it alerts and returns. The
  dialog is a parameter that returns its result code (2 for Cancel) and the settings as
  the user left them; \<open>progressWindow\<close> tells whether the progress window could be made.
\<close>

datatype script_outcome =
  Alerted string | Cancelled | NoProgressWindow | Ran "js_error + outcome"

definition defaultSettings :: "item list \<Rightarrow> (rat \<times> rat \<times> rat \<times> rat) list \<Rightarrow> settings" where
  "defaultSettings selection boards =
     \<lparr>items = selection, artboards = boards,
      padding = 2834645669 / 1000000000, margin = 5 * (2834645669 / 1000000000),
      settings_allow90DegreeRotation = True, allowAnyRotation = True,
      bestFitBy = ''count'', maxAttemptCount = None, tryHarder = False,
      doNotSort = False, debugBinBounds = False, forceRotate = False\<rparr>"

definition script ::
  "host \<Rightarrow> (settings \<Rightarrow> nat \<times> settings) \<Rightarrow> bool \<Rightarrow> bool \<Rightarrow> nat \<Rightarrow> item list \<Rightarrow>
   (rat \<times> rat \<times> rat \<times> rat) list \<Rightarrow> script_outcome" where
  "script hst ui showUI progressWindow documentsLength selection boards =
     (if documentsLength = 0 \<or> length selection = 0
      then Alerted ''Please select some items and try again.''
      else
        (let settings0 = defaultSettings selection boards;
             (result, settings1) = (if showUI then ui settings0 else (1, settings0))
         in if showUI \<and> result = 2 then Cancelled
            else if \<not> progressWindow then NoProgressWindow
            else Ran (packItemsIllustrator hst settings1 False)))"

section \<open>The score as the specification words it\<close>

text \<open>The results of \<open>fit\<close> for the bins an attempt processes, in order: bin after
  bin on what the bin before left, up to the first bin that leaves nothing.\<close>

fun binResults :: "settings \<Rightarrow> nat \<Rightarrow> bin list \<Rightarrow> block list \<Rightarrow> (bin \<times> fit_result) list" where
  "binResults s i [] blocks = []"
| "binResults s i (bn # bins) blocks =
     (let r = fit (Packer (width bn) (height bn) (settings_allow90DegreeRotation s)) blocks i
      in (bn, r) # (if remainingBlocks r = [] then []
                    else binResults s (i + 1) bins (remainingBlocks r)))"

definition areaPackedInBin :: "fit_result \<Rightarrow> rat" where
  "areaPackedInBin r = sum_list (map (\<lambda>b. w b * h b) (packedBlocks r))"

definition packedCountInBin :: "fit_result \<Rightarrow> nat" where
  "packedCountInBin r = length (packedBlocks r)"

text \<open>\<open>(binWidth * binHeight / areaPackedInBin) * scoreFactor\<close> for one processed
  bin.\<close>

definition binScore :: "bool \<Rightarrow> nat \<Rightarrow> rat \<Rightarrow> bin \<times> fit_result \<Rightarrow> jsnum" where
  "binScore byCount totalItemCount totalArea br =
     (case br of (bn, r) \<Rightarrow>
        jmul (jdiv (Num (width bn * height bn)) (Num (areaPackedInBin r)))
             (if byCount
              then jdiv (Num (of_nat totalItemCount)) (Num (of_nat (packedCountInBin r)))
              else jdiv (Num totalArea) (Num (areaPackedInBin r))))"

text \<open>The sum over the processed bins, plus 100 for every bin not used, minus 100
  for every block left unpacked.\<close>

definition specScore ::
  "bool \<Rightarrow> nat \<Rightarrow> rat \<Rightarrow> nat \<Rightarrow> block list \<Rightarrow> (bin \<times> fit_result) list \<Rightarrow> jsnum" where
  "specScore byCount totalItemCount totalArea totalBinCount blocks results =
     (let binsActuallyUsed = length results;
          remainingUnpackedCount =
            length blocks - sum_list (map (\<lambda>br. packedCountInBin (snd br)) results)
      in jsub (jadd (foldl jadd (Num 0) (map (binScore byCount totalItemCount totalArea) results))
                    (Num ((of_nat totalBinCount - of_nat binsActuallyUsed) * 100)))
              (Num (of_nat remainingUnpackedCount * 100)))"

text \<open>What the attempts loop records, read as a description of its control flow:
  the attempts have consecutive indices from \<open>a\<close>, the first is made exactly when \<open>a\<close>
  is below the bound \<open>N\<close>, and after an attempt the loop goes on unless sorting is
  off, or trying harder is off and the index is above 4 and the best attempt has no
  block left.\<close>

fun validLog :: "settings \<Rightarrow> nat \<Rightarrow> nat \<Rightarrow> (attempt \<times> attempt) list \<Rightarrow> bool" where
  "validLog s N a [] = (\<not> a < N)"
| "validLog s N a (e # es) =
     (a < N \<and> attemptIndex (fst e) = a \<and>
      (if doNotSort s \<or> (\<not> tryHarder s \<and> a > 4 \<and> remainingBlocks (snd e) = [])
       then es = [] else validLog s N (a + 1) es))"

text \<open>The record of the attempts of a whole run, and the number of attempts its
  bound allows.\<close>

definition runLog :: "host \<Rightarrow> settings \<Rightarrow> bool \<Rightarrow> (attempt \<times> attempt) list" where
  "runLog hst s randomAttempt = attemptLog (attemptsLoop hst s randomAttempt 0 (initialVars s))"

definition budget :: "settings \<Rightarrow> bool \<Rightarrow> nat" where
  "budget s randomAttempt = boundNat (maxAttemptCountOf s randomAttempt)"

text \<open>Every block of the attempt is either packed or remaining.\<close>

definition conserved :: "settings \<Rightarrow> attempt \<Rightarrow> bool" where
  "conserved s att =
     (length (packedBlocks att) + length (remainingBlocks att) = length (items s))"

text \<open>An attempt that packed nothing, used no bin and lost 100 for each item.\<close>

definition nothingPacked :: "settings \<Rightarrow> attempt \<Rightarrow> bool" where
  "nothingPacked s att =
     (packedBlocks att = [] \<and> length (remainingBlocks att) = length (items s) \<and>
      binCount att = 0 \<and> score att = Num (- (of_nat (length (items s)) * 100)))"

section \<open>Geometric predicates used in the statements\<close>

text \<open>A rectangle lies in the bin of width \<open>W\<close> and height \<open>H\<close>.\<close>

definition inBin :: "rat \<Rightarrow> rat \<Rightarrow> 'a rect_scheme \<Rightarrow> bool" where
  "inBin W H r = (0 \<le> x0 r \<and> 0 \<le> y0 r \<and> x1 r \<le> W \<and> y1 r \<le> H)"

text \<open>Two rectangles share no area: one ends where the other begins, in \<open>x\<close> or
  in \<open>y\<close>.\<close>

definition apart :: "'a rect_scheme \<Rightarrow> 'b rect_scheme \<Rightarrow> bool" where
  "apart r p = (x1 r \<le> x0 p \<or> x1 p \<le> x0 r \<or> y1 r \<le> y0 p \<or> y1 p \<le> y0 r)"

definition proper :: "'a rect_scheme \<Rightarrow> bool" where
  "proper p = (x0 p < x1 p \<and> y0 p < y1 p)"

definition touching :: "rect \<Rightarrow> rect \<Rightarrow> bool" where
  "touching a b = (intersect a b \<noteq> None)"

text \<open>The area of the intersection of the placement rectangles
  \<open>[x0, x0 + w] \<times> [y0, y0 + h]\<close> of two blocks.\<close>

definition overlapArea :: "block \<Rightarrow> block \<Rightarrow> rat" where
  "overlapArea a b =
     max 0 (min (x0 a + w a) (x0 b + w b) - max (x0 a) (x0 b)) *
     max 0 (min (y0 a + h a) (y0 b + h b) - max (y0 a) (y0 b))"

text \<open>A block as \<open>fit\<close> receives it: a block object of positive width and height
  that no packer has placed yet.\<close>

definition pending :: "block \<Rightarrow> bool" where
  "pending b = (blockInv b \<and> 0 < w b \<and> 0 < h b \<and> \<not> packed b)"

text \<open>A placed block: its corner form agrees with its current width and height, and
  it lies in the bin.\<close>

definition placed :: "rat \<Rightarrow> rat \<Rightarrow> block \<Rightarrow> bool" where
  "placed W H p =
     (0 < w p \<and> 0 < h p \<and> x1 p = x0 p + w p \<and> y1 p = y0 p + h p \<and> inBin W H p)"

text \<open>A free region is sound for the blocks placed so far: its corners are in
  order, it lies in the bin and it shares no area with any of the blocks.\<close>

definition freeFor :: "rat \<Rightarrow> rat \<Rightarrow> block list \<Rightarrow> rect \<Rightarrow> bool" where
  "freeFor W H ps r =
     (x0 r \<le> x1 r \<and> y0 r \<le> y1 r \<and> inBin W H r \<and> (\<forall>p \<in> set ps. apart r p))"

text \<open>What the loop of \<open>adjustHeap\<close> leaves of a heap entry in place, and what it
  pushes for it.\<close>

definition keep :: "block \<Rightarrow> rect \<Rightarrow> rect option" where
  "keep block hb = (if intersect hb block = None then Some hb else None)"

definition pushedFor :: "block \<Rightarrow> rect \<Rightarrow> rect option list" where
  "pushedFor block hb = (case intersect hb block of None \<Rightarrow> [] | Some ov \<Rightarrow> slivers hb ov)"

definition heapOK :: "(rect \<Rightarrow> bool) \<Rightarrow> rect option list \<Rightarrow> bool" where
  "heapOK P hp = (\<forall>r. Some r \<in> set hp \<longrightarrow> P r)"

definition pairwiseApart :: "block list \<Rightarrow> bool" where
  "pairwiseApart ps = (\<forall>i j. i < j \<and> j < length ps \<longrightarrow> apart (ps ! i) (ps ! j))"

text \<open>The invariant of the loop of \<open>fit\<close>.\<close>

definition fitInv :: "rat \<Rightarrow> rat \<Rightarrow> fit_state \<Rightarrow> bool" where
  "fitInv W H st =
     ((\<forall>r \<in> set (heap st). freeFor W H (packedBlocks st) r) \<and>
      (\<forall>p \<in> set (packedBlocks st). placed W H p) \<and>
      pairwiseApart (packedBlocks st))"

text \<open>The test of \<open>findInHeap\<close> and the placement it makes, named for the
  statements about first fit.\<close>

definition fitsIn :: "block \<Rightarrow> rect \<Rightarrow> bool" where
  "fitsIn b r = (w b \<le> x1 r - x0 r \<and> h b \<le> y1 r - y0 r)"

definition placeAt :: "block \<Rightarrow> rect \<Rightarrow> block" where
  "placeAt b r = b\<lparr>x0 := x0 r, y0 := y0 r, x1 := x0 r + w b, y1 := y0 r + h b, packed := True\<rparr>"

text \<open>The two ways the loop body of \<open>fit\<close> ends: the block is pushed on
  \<open>packedBlocks\<close> (with the heap adjusted, or left as it was for a block that came in
  already marked packed), or on \<open>remainingBlocks\<close>.\<close>

definition pushPacked :: "nat \<Rightarrow> fit_state \<Rightarrow> rect list \<Rightarrow> block \<Rightarrow> fit_state" where
  "pushPacked k st hp b =
     st\<lparr>heap := hp, packedBlocks := packedBlocks st @ [b\<lparr>binIndex := Some k\<rparr>],
        area := area st + w b * h b\<rparr>"

definition pushRemaining :: "fit_state \<Rightarrow> block \<Rightarrow> fit_state" where
  "pushRemaining st b = st\<lparr>remainingBlocks := remainingBlocks st @ [b]\<rparr>"




section \<open>Example inputs\<close>

text \<open>An item whose bounds are the rectangle of width \<open>a\<close> and height \<open>b\<close> at the
  origin (Illustrator's \<open>y\<close> axis points up), and three blocks made from such items
  with no padding.\<close>

definition rectItem :: "rat \<Rightarrow> rat \<Rightarrow> item" where
  "rectItem a b = \<lparr>itemBounds = (0, b, a, 0), item_left = 0, item_top = b,
                   geometricBounds = (- b, 0, 0, a), visibleBounds = (0, b, a, 0)\<rparr>"

definition exampleBlocks :: "block list" where
  "exampleBlocks = [Block Illustrator 0 False (rectItem 60 50) 0,
                    Block Illustrator 0 False (rectItem 30 70) 1,
                    Block Illustrator 0 False (rectItem 80 40) 2]"

text \<open>The variables of \<open>fit\<close> before its loop, for a bin of the given size.\<close>

definition exampleState :: "rat \<Rightarrow> rat \<Rightarrow> fit_state" where
  "exampleState W H =
     \<lparr>count = 0, area = 0, packedBlocks = [], remainingBlocks = [],
      heap = [\<lparr>x0 = 0, y0 = 0, x1 = W, y1 = H\<rparr>]\<rparr>"

definition wideBlock :: block where
  "wideBlock = Block Illustrator 0 False (rectItem 80 40) 0"

text \<open>The variables of \<open>fit\<close> on the three blocks in a bin of 100 by 100 after the first
  block (60 by 50) is placed: the heap holds the region below the block and the region
  right of it, in this order.\<close>

definition afterFirst :: fit_state where
  "afterFirst = fitBlock (Packer 100 100 True) 0 (exampleState 100 100) (exampleBlocks ! 0)"

text \<open>Blocks whose sides are the doubles nearest to the given decimal numbers, and two
  lists of such blocks: 0.7 by 1 and 2.2 by 1, for a bin of 2.9 by 1; and 0.7 by 1,
  2.9 by 1, 2 by 2 and 2.2 by 1, for a bin of 5 by 2.\<close>

definition dblBlock :: "nat \<Rightarrow> rat \<Rightarrow> rat \<Rightarrow> block" where
  "dblBlock i a b = Block Illustrator 0 False (rectItem (dbl a) (dbl b)) i"

definition twoBlocks :: "block list" where
  "twoBlocks = [dblBlock 0 (7 / 10) 1, dblBlock 1 (22 / 10) 1]"

definition fourBlocks :: "block list" where
  "fourBlocks = [dblBlock 0 (7 / 10) 1, dblBlock 1 (29 / 10) 1, dblBlock 2 2 2,
                 dblBlock 3 (22 / 10) 1]"

text \<open>A host that leaves the items as they are and always draws 0, and a run on one
  artboard of 100 by 100 with no margin and no padding.\<close>

definition exampleHost :: host where
  "exampleHost = \<lparr>minimalBounds = (\<lambda>it. it), random = (\<lambda>a i. 0)\<rparr>"

definition exampleSettings :: settings where
  "exampleSettings =
     \<lparr>items = [rectItem 60 100, rectItem 40 100], artboards = [(0, 0, 100, - 100)],
      padding = 0, margin = 0,
      settings_allow90DegreeRotation = True, allowAnyRotation = False,
      bestFitBy = ''count'', maxAttemptCount = Some 8, tryHarder = False,
      doNotSort = False, debugBinBounds = False, forceRotate = False\<rparr>"

definition threeItems :: "item list" where
  "threeItems = [rectItem 60 50, rectItem 30 70, rectItem 80 40]"

definition threeItemSettings :: settings where
  "threeItemSettings = exampleSettings\<lparr>items := threeItems\<rparr>"

text \<open>The first pass of the attempts loop of a run on the example host.\<close>

definition firstPass :: "settings \<Rightarrow> loop_vars" where
  "firstPass s = attemptStep exampleHost s False 0 (initialVars s)"

section \<open>Properties of blocks\<close>

lemma rotate_blockInv: "blockInv b \<Longrightarrow> blockInv (rotateBlock b)"
  by (auto simp: blockInv_def rotateBlock_def Let_def split: if_splits)

lemma Block_blockInv: "blockInv (Block ap pad fr it idx)"
  by (cases ap; cases fr)
     (auto simp: Block_def blockInv_def rotateBlock_def Let_def split: prod.splits)

lemma rotate_swaps: "blockInv b \<Longrightarrow> w (rotateBlock b) = h b \<and> h (rotateBlock b) = w b"
  by (auto simp: blockInv_def rotateBlock_def Let_def split: if_splits)

lemma rotate_rect [simp]:
  "x0 (rotateBlock b) = x0 b" "y0 (rotateBlock b) = y0 b" "x1 (rotateBlock b) = x1 b" "y1 (rotateBlock b) = y1 b"
  "packed (rotateBlock b) = packed b" "index (rotateBlock b) = index b" "binIndex (rotateBlock b) = binIndex b"
  "dimensions (rotateBlock b) = dimensions b" "rotatedDimensions (rotateBlock b) = rotatedDimensions b"
  by (simp_all add: rotateBlock_def Let_def)

text \<open>
  Claim C10. \<open>rotate\<close> is an involution and does nothing to a square block: for every
  block object (a block the constructor made, rotated any number of times), two calls
  of \<open>rotate\<close> restore \<open>w\<close>, \<open>h\<close>, \<open>dx\<close>, \<open>dy\<close> and \<open>isRotated\<close> (indeed the whole object);
  and when \<open>w = h\<close> one call changes nothing and the block is not marked rotated.
\<close>

theorem rotate_involution:
  "blockInv b \<Longrightarrow>
     rotateBlock (rotateBlock b) = b \<and> (w b = h b \<longrightarrow> rotateBlock b = b \<and> \<not> isRotated b)"
  by (auto simp: blockInv_def rotateBlock_def Let_def split: if_splits)

theorem rotate_involution_witness:
  "blockInv wideBlock
   \<and> rotateBlock (rotateBlock wideBlock) = wideBlock
   \<and> w (rotateBlock wideBlock) = 40 \<and> isRotated (rotateBlock wideBlock)
   \<and> blockInv (Block Illustrator 0 True (rectItem 50 50) 0)
   \<and> w (Block Illustrator 0 True (rectItem 50 50) 0) = h (Block Illustrator 0 True (rectItem 50 50) 0)
   \<and> rotateBlock (Block Illustrator 0 True (rectItem 50 50) 0)
       = Block Illustrator 0 True (rectItem 50 50) 0
   \<and> \<not> isRotated (Block Illustrator 0 True (rectItem 50 50) 0)"
proof -
  have bi: "blockInv wideBlock" by (simp add: wideBlock_def Block_blockInv)
  have sq: "w (Block Illustrator 0 True (rectItem 50 50) 0) = h (Block Illustrator 0 True (rectItem 50 50) 0)"
    by (simp add: Block_def rectItem_def rotateBlock_def)
  have r: "w (rotateBlock wideBlock) = 40" "isRotated (rotateBlock wideBlock)"
    by (simp_all add: wideBlock_def Block_def rectItem_def rotateBlock_def)
  show ?thesis
    using rotate_involution [OF bi]
      rotate_involution [OF Block_blockInv, of Illustrator 0 True "rectItem 50 50" 0] bi sq r
    by (simp add: Block_blockInv)
qed

section \<open>Soundness of the free regions\<close>

lemma touching_iff: "touching a b \<longleftrightarrow> max (x0 a) (x0 b) \<le> min (x1 a) (x1 b) \<and> max (y0 a) (y0 b) \<le> min (y1 a) (y1 b)"
  by (simp add: touching_def intersect_def Let_def)

lemma expandY_apart:
  "proper p \<Longrightarrow> touching a b \<Longrightarrow> apart a p \<Longrightarrow> apart b p \<Longrightarrow> apart (expandY a b) p"
  unfolding proper_def touching_iff apart_def expandY_def
  by (auto simp: min_def max_def split: if_splits)

lemma expandX_apart:
  "proper p \<Longrightarrow> touching a b \<Longrightarrow> apart a p \<Longrightarrow> apart b p \<Longrightarrow> apart (expandX a b) p"
  unfolding proper_def touching_iff apart_def expandX_def
  by (auto simp: min_def max_def split: if_splits)

lemma expandY_touching: "touching a b \<Longrightarrow> touching a (expandY a b)"
  unfolding touching_iff expandY_def by (auto simp: min_def max_def split: if_splits)

lemma expandX_touching: "touching a b \<Longrightarrow> touching a (expandX a b)"
  unfolding touching_iff expandX_def by (auto simp: min_def max_def split: if_splits)

lemma touching_sym: "touching a b \<Longrightarrow> touching b a"
  unfolding touching_iff by (auto simp: min_def max_def split: if_splits)

lemma expand_apart:
  "proper p \<Longrightarrow> touching a b \<Longrightarrow> apart a p \<Longrightarrow> apart b p \<Longrightarrow> apart (expand a b) p"
  unfolding expand_def by (intro expandX_apart expandY_apart expandY_touching)

lemma expand_touching: "touching a b \<Longrightarrow> touching a (expand a b)"
  unfolding expand_def by (intro expandX_touching expandY_touching)

lemma expand_ordered:
  "x0 b \<le> x1 b \<Longrightarrow> y0 b \<le> y1 b \<Longrightarrow> x0 (expand a b) \<le> x1 (expand a b) \<and> y0 (expand a b) \<le> y1 (expand a b)"
  unfolding expand_def expandX_def expandY_def by (auto simp: min_def max_def)

lemma expandY_inBin: "inBin W H a \<Longrightarrow> inBin W H b \<Longrightarrow> inBin W H (expandY a b)"
  unfolding inBin_def expandY_def by (auto simp: min_def max_def)

lemma expandX_inBin: "inBin W H a \<Longrightarrow> inBin W H b \<Longrightarrow> inBin W H (expandX a b)"
  unfolding inBin_def expandX_def by (auto simp: min_def max_def)

lemma expand_inBin: "inBin W H a \<Longrightarrow> inBin W H b \<Longrightarrow> inBin W H (expand a b)"
  unfolding expand_def by (intro expandX_inBin expandY_inBin)

lemma expand_freeFor:
  assumes "\<forall>p \<in> set ps. proper p" "touching a b" "freeFor W H ps a" "freeFor W H ps b"
  shows "freeFor W H ps (expand a b)"
  using assms expand_ordered [of b a] unfolding freeFor_def
  by (auto intro: expand_inBin expand_apart)

lemma unionMax_freeFor:
  assumes ps: "\<forall>p \<in> set ps. proper p"
    and a: "\<And>r. a = Some r \<Longrightarrow> freeFor W H ps r"
    and b: "\<And>r. b = Some r \<Longrightarrow> freeFor W H ps r"
    and u: "unionMax a b = (a', b')"
  shows "(\<forall>r. a' = Some r \<longrightarrow> freeFor W H ps r) \<and> (\<forall>r. b' = Some r \<longrightarrow> freeFor W H ps r)"
proof (cases "\<exists>ra rb. a = Some ra \<and> b = Some rb \<and> touching ra rb \<and> \<not> chunkContains ra rb \<and> \<not> chunkContains rb ra")
  case True
  then obtain ra rb where ab: "a = Some ra" "b = Some rb" and t: "touching ra rb"
    and nc: "\<not> chunkContains ra rb" "\<not> chunkContains rb ra" by blast
  have fa: "freeFor W H ps ra" and fb: "freeFor W H ps rb" using a b ab by auto
  have b': "b' = Some (expand ra rb)" and a': "a' = Some (expand (expand ra rb) ra)"
    using u ab t nc by (auto simp: unionMax_def touching_def Let_def split: option.splits)
  have f1: "freeFor W H ps (expand ra rb)" by (rule expand_freeFor [OF ps t fa fb])
  have t1: "touching (expand ra rb) ra" by (rule touching_sym [OF expand_touching [OF t]])
  have f2: "freeFor W H ps (expand (expand ra rb) ra)" by (rule expand_freeFor [OF ps t1 f1 fa])
  show ?thesis using a' b' f1 f2 by simp
next
  case False
  then have "a' = a \<and> b' = b"
    using u by (auto simp: unionMax_def touching_def Let_def split: option.splits if_splits)
  then show ?thesis using a b by auto
qed

lemma heapOK_update: "heapOK P hp \<Longrightarrow> (\<And>r. e = Some r \<Longrightarrow> P r) \<Longrightarrow> heapOK P (hp[i := e])"
  unfolding heapOK_def using set_update_subset_insert [of hp i e] by auto

lemma unionStep_OK:
  assumes ps: "\<forall>p \<in> set ps. proper p" and i: "i < length hp" and j: "j < length hp"
    and ok: "heapOK (freeFor W H ps) hp"
  shows "heapOK (freeFor W H ps) (unionStep i j hp) \<and> length (unionStep i j hp) = length hp"
proof (cases "i = j")
  case True then show ?thesis using ok by (simp add: unionStep_def)
next
  case False
  obtain hi hj where u: "unionMax (hp ! i) (hp ! j) = (hi, hj)" by force
  have ai: "\<And>r. hp ! i = Some r \<Longrightarrow> freeFor W H ps r"
    using ok i unfolding heapOK_def by (metis nth_mem)
  have aj: "\<And>r. hp ! j = Some r \<Longrightarrow> freeFor W H ps r"
    using ok j unfolding heapOK_def by (metis nth_mem)
  from unionMax_freeFor [OF ps ai aj u]
  have hi: "\<And>r. hi = Some r \<Longrightarrow> freeFor W H ps r" and hj: "\<And>r. hj = Some r \<Longrightarrow> freeFor W H ps r"
    by auto
  have ok1: "heapOK (freeFor W H ps) (hp[i := hi, j := hj])"
    by (intro heapOK_update ok hi hj)
  have okN: "\<And>k. heapOK (freeFor W H ps) (hp[i := hi, j := hj, k := None])"
    by (rule heapOK_update [OF ok1]) simp
  have ok2: "heapOK (freeFor W H ps) (hp[i := hi, j := None])"
    by (rule heapOK_update [OF heapOK_update [OF ok hi]]) simp_all
  show ?thesis using False u ok1 okN ok2
    by (auto simp: unionStep_def Let_def split: option.splits)
qed

lemma fold_invariant:
  "(\<And>x s. x \<in> set xs \<Longrightarrow> Q s \<Longrightarrow> Q (f x s)) \<Longrightarrow> Q s \<Longrightarrow> Q (fold f xs s)"
  by (induction xs arbitrary: s) auto

lemma unionAll_freeFor:
  assumes ps: "\<forall>p \<in> set ps. proper p" and ok: "heapOK (freeFor W H ps) hp"
  shows "\<forall>r \<in> set (unionAll hp). freeFor W H ps r"
proof -
  let ?Q = "\<lambda>s. heapOK (freeFor W H ps) s \<and> length s = length hp"
  have inner: "?Q (fold (unionStep i) [0..<length hp] s)" if "i < length hp" "?Q s" for i s
    by (rule fold_invariant [where Q = ?Q]) (use that unionStep_OK [OF ps] in auto)
  have "?Q (fold (\<lambda>i s. fold (unionStep i) [0..<length hp] s) [0..<length hp] hp)"
    by (rule fold_invariant [where Q = ?Q]) (use inner ok in auto)
  then show ?thesis
    by (auto simp: unionAll_def Let_def heapOK_def split: option.splits)
qed

lemma adjustLoop_Suc: "adjustLoop block (Suc k) hp = adjustStep block k (adjustLoop block k hp)"
  by (simp add: adjustLoop_def)

lemma adjustLoop_explicit:
  "k \<le> length orig \<Longrightarrow>
     adjustLoop block k (map Some orig) =
       map (keep block) (take k orig) @ map Some (drop k orig) @ concat (map (pushedFor block) (take k orig))"
proof (induction k)
  case 0
  then show ?case by (simp add: adjustLoop_def)
next
  case (Suc k)
  then have k: "k < length orig" by simp
  let ?A = "map (keep block) (take k orig)"
  let ?C = "concat (map (pushedFor block) (take k orig))"
  let ?D = "map Some (drop (Suc k) orig)"
  have dr: "drop k orig = orig ! k # drop (Suc k) orig"
    using k by (simp add: Cons_nth_drop_Suc)
  have tk: "take (Suc k) orig = take k orig @ [orig ! k]"
    using k by (simp add: take_Suc_conv_app_nth)
  have lenA: "length ?A = k" using k by simp
  have hp: "adjustLoop block k (map Some orig) = ?A @ Some (orig ! k) # ?D @ ?C"
    using Suc by (simp add: dr)
  have rd: "(?A @ Some (orig ! k) # ?D @ ?C) ! k = Some (orig ! k)"
    using lenA by (metis nth_append_length)
  have up: "(?A @ Some (orig ! k) # ?D @ ?C @ xs)[k := None] = ?A @ None # ?D @ ?C @ xs" for xs
    using lenA by (metis list_update_length)
  show ?case
  proof (cases "intersect (orig ! k) block")
    case None
    then have "keep block (orig ! k) = Some (orig ! k)" "pushedFor block (orig ! k) = []"
      by (simp_all add: keep_def pushedFor_def)
    with None show ?thesis
      unfolding adjustLoop_Suc hp by (simp add: adjustStep_def rd tk)
  next
    case (Some ov)
    then have "keep block (orig ! k) = None" "pushedFor block (orig ! k) = slivers (orig ! k) ov"
      by (simp_all add: keep_def pushedFor_def)
    with Some show ?thesis
      unfolding adjustLoop_Suc hp using up [of "slivers (orig ! k) ov"]
      by (simp add: adjustStep_def rd tk)
  qed
qed

lemma adjustLoop_reads:
  assumes "i < length orig"
  shows "adjustLoop block i (map Some orig) ! i = Some (orig ! i)"
proof -
  have "length (map (keep block) (take i orig)) = i" using assms by simp
  then have "(map (keep block) (take i orig) @ Some (orig ! i) # map Some (drop (Suc i) orig)
     @ concat (map (pushedFor block) (take i orig))) ! i = Some (orig ! i)"
    by (metis nth_append_length)
  then show ?thesis
    using assms by (simp add: adjustLoop_explicit Cons_nth_drop_Suc [symmetric])
qed

lemma adjustHeap_explicit:
  "adjustHeap block hp = unionAll (map (keep block) hp @ concat (map (pushedFor block) hp))"
  by (simp add: adjustHeap_def adjustLoop_explicit)

lemma apart_block_update [simp]: "apart r (p\<lparr>binIndex := v\<rparr>) = apart r p"
  by (simp add: apart_def)

lemma sliver_sound:
  assumes ov: "intersect hb block = Some ov" and s: "Some r \<in> set (slivers hb ov)"
    and f: "freeFor W H ps hb"
  shows "freeFor W H ps r \<and> apart r block"
proof -
  have ovd: "x0 ov = max (x0 hb) (x0 block)" "x1 ov = min (x1 hb) (x1 block)"
       "y0 ov = max (y0 hb) (y0 block)" "y1 ov = min (y1 hb) (y1 block)"
       "x0 ov \<le> x1 ov" "y0 ov \<le> y1 ov"
    using ov by (auto simp: intersect_def Let_def split: if_splits)
  have sub: "x0 hb \<le> x0 r \<and> x1 r \<le> x1 hb \<and> y0 hb \<le> y0 r \<and> y1 r \<le> y1 hb \<and>
      x0 r \<le> x1 r \<and> y0 r \<le> y1 r \<and> apart r block"
    using s ovd f by (auto simp: slivers_def apart_def freeFor_def min_def max_def split: if_splits)
  have "apart r p" if "p \<in> set ps" for p
    using f that sub unfolding freeFor_def apart_def by fastforce
  then show ?thesis
    using f sub unfolding freeFor_def inBin_def by auto
qed

lemma keep_sound:
  assumes "keep block hb = Some r" "freeFor W H ps hb" "proper block"
  shows "freeFor W H ps r \<and> apart r block"
  using assms
  by (auto simp: keep_def intersect_def Let_def apart_def freeFor_def proper_def min_def max_def
           split: if_splits)


lemma freeFor_snoc: "freeFor W H (ps @ [b]) r \<longleftrightarrow> freeFor W H ps r \<and> apart r b"
  by (auto simp: freeFor_def)

lemma adjustHeap_sound:
  assumes ps: "\<forall>p \<in> set ps. proper p" and b: "proper block"
    and hp: "\<forall>r \<in> set hp. freeFor W H ps r"
  shows "\<forall>r \<in> set (adjustHeap block hp). freeFor W H (ps @ [block\<lparr>binIndex := v\<rparr>]) r"
proof -
  let ?ps = "ps @ [block\<lparr>binIndex := v\<rparr>]"
  have pr: "\<forall>p \<in> set ?ps. proper p" using ps b by (auto simp: proper_def)
  have "freeFor W H ?ps r" if "Some r \<in> set (map (keep block) hp @ concat (map (pushedFor block) hp))" for r
  proof -
    from that consider hb where "hb \<in> set hp" "keep block hb = Some r"
      | hb where "hb \<in> set hp" "Some r \<in> set (pushedFor block hb)"
      by auto
    then show ?thesis
    proof cases
      case 1
      then show ?thesis using keep_sound [OF 1(2) _ b] hp by (auto simp: freeFor_snoc)
    next
      case 2
      then obtain ov where "intersect hb block = Some ov" "Some r \<in> set (slivers hb ov)"
        by (cases "intersect hb block") (auto simp: pushedFor_def)
      then show ?thesis using sliver_sound [of hb block ov r W H ps] hp 2(1)
        by (auto simp: freeFor_snoc)
    qed
  qed
  then have "heapOK (freeFor W H ?ps) (map (keep block) hp @ concat (map (pushedFor block) hp))"
    unfolding heapOK_def by blast
  from unionAll_freeFor [OF pr this] show ?thesis by (simp add: adjustHeap_explicit)
qed

lemma findInHeap_True:
  "findInHeap b hp = (b', True) \<Longrightarrow>
     \<exists>r \<in> set hp. w b \<le> x1 r - x0 r \<and> h b \<le> y1 r - y0 r \<and>
       b' = b\<lparr>x0 := x0 r, y0 := y0 r, x1 := x0 r + w b, y1 := y0 r + h b, packed := True\<rparr>"
  by (induction hp) (auto split: if_splits)

lemma findInHeap_False: "findInHeap b hp = (b', False) \<Longrightarrow> b' = b"
  by (induction hp) (auto split: if_splits)

lemma pairwiseApart_snoc:
  assumes "pairwiseApart ps" "\<forall>q \<in> set ps. apart q p"
  shows "pairwiseApart (ps @ [p])"
  unfolding pairwiseApart_def
proof (intro allI impI)
  fix i j assume ij: "i < j \<and> j < length (ps @ [p])"
  show "apart ((ps @ [p]) ! i) ((ps @ [p]) ! j)"
  proof (cases "j < length ps")
    case True
    then show ?thesis using assms(1) ij by (auto simp: pairwiseApart_def nth_append)
  next
    case False
    then have "j = length ps" "i < length ps" using ij by auto
    then show ?thesis using assms(2) by (auto simp: nth_append)
  qed
qed

lemma place_inv:
  assumes inv: "fitInv W H st" and r: "r \<in> set (heap st)"
    and fits: "w b \<le> x1 r - x0 r" "h b \<le> y1 r - y0 r" and pos: "0 < w b" "0 < h b"
    and b': "b' = b\<lparr>x0 := x0 r, y0 := y0 r, x1 := x0 r + w b, y1 := y0 r + h b, packed := True\<rparr>"
  shows "fitInv W H (st\<lparr>heap := adjustHeap b' (heap st),
                        packedBlocks := packedBlocks st @ [b'\<lparr>binIndex := Some k\<rparr>],
                        area := a\<rparr>)"
proof -
  have fr: "freeFor W H (packedBlocks st) r" using inv r by (simp add: fitInv_def)
  have pl: "placed W H (b'\<lparr>binIndex := Some k\<rparr>)"
    using fr fits pos by (auto simp: placed_def b' inBin_def freeFor_def)
  have pb: "proper b'" using pos by (simp add: proper_def b')
  have pps: "\<forall>p \<in> set (packedBlocks st). proper p"
    using inv by (auto simp: fitInv_def placed_def proper_def)
  have ap: "\<forall>q \<in> set (packedBlocks st). apart q (b'\<lparr>binIndex := Some k\<rparr>)"
  proof
    fix q assume "q \<in> set (packedBlocks st)"
    then have "apart r q" using fr by (simp add: freeFor_def)
    then show "apart q (b'\<lparr>binIndex := Some k\<rparr>)"
      using fits pos by (auto simp: apart_def b')
  qed
  have hp: "\<forall>r \<in> set (heap st). freeFor W H (packedBlocks st) r"
    using inv by (simp add: fitInv_def)
  show ?thesis
    using adjustHeap_sound [OF pps pb hp, of "Some k"] pl ap inv
    by (auto simp: fitInv_def intro: pairwiseApart_snoc)
qed

lemma pending_rotate: "pending b \<Longrightarrow> pending (rotateBlock b)"
  using rotate_swaps [of b] rotate_blockInv [of b] by (auto simp: pending_def)

lemma fitBlock_inv:
  assumes inv: "fitInv W H st" and p: "pending b"
  shows "fitInv W H (fitBlock this k st b)"
proof -
  obtain b1 f1 where e1: "findInHeap b (heap st) = (b1, f1)" by force
  obtain b2 f2 where e2: "findInHeap (rotateBlock b) (heap st) = (b2, f2)" by force
  have rem: "fitInv W H (st\<lparr>remainingBlocks := xs\<rparr>)" for xs
    using inv by (simp add: fitInv_def)
  show ?thesis
  proof (cases f1)
    case True
    then have "findInHeap b (heap st) = (b1, True)" using e1 by simp
    from findInHeap_True [OF this] obtain r where
      r: "r \<in> set (heap st)" "w b \<le> x1 r - x0 r" "h b \<le> y1 r - y0 r"
      "b1 = b\<lparr>x0 := x0 r, y0 := y0 r, x1 := x0 r + w b, y1 := y0 r + h b, packed := True\<rparr>"
      by blast
    have "packed b1" using r(4) by simp
    then show ?thesis
      using place_inv [OF inv r(1-3) _ _ r(4), where k = k] p True e1
      by (simp add: fitBlock_def pending_def)
  next
    case False
    then have b1: "b1 = b" using findInHeap_False [of b "heap st" b1] e1 by simp
    show ?thesis
    proof (cases "allow90DegreeRotation this")
      case nr: False
      then show ?thesis using False e1 b1 p rem by (simp add: fitBlock_def pending_def)
    next
      case rot: True
      have pr: "pending (rotateBlock b)" by (rule pending_rotate [OF p])
      show ?thesis
      proof (cases f2)
        case True
        then have "findInHeap (rotateBlock b) (heap st) = (b2, True)" using e2 by simp
        from findInHeap_True [OF this] obtain r where
          r: "r \<in> set (heap st)" "w (rotateBlock b) \<le> x1 r - x0 r" "h (rotateBlock b) \<le> y1 r - y0 r"
          "b2 = (rotateBlock b)\<lparr>x0 := x0 r, y0 := y0 r, x1 := x0 r + w (rotateBlock b),
                 y1 := y0 r + h (rotateBlock b), packed := True\<rparr>"
          by blast
        have "packed b2" using r(4) by simp
        then show ?thesis
          using place_inv [OF inv r(1-3) _ _ r(4), where k = k] pr True e2 e1 \<open>\<not> f1\<close> b1 rot
          by (simp add: fitBlock_def pending_def)
      next
        case f2F: False
        then have "b2 = rotateBlock b"
          using findInHeap_False [of "rotateBlock b" "heap st" b2] e2 by simp
        then show ?thesis
          using f2F e2 e1 \<open>\<not> f1\<close> b1 rot pr rem by (simp add: fitBlock_def pending_def)
      qed
    qed
  qed
qed

lemma foldl_fitBlock_inv:
  "fitInv W H st \<Longrightarrow> \<forall>b \<in> set blocks. pending b \<Longrightarrow> fitInv W H (foldl (fitBlock this k) st blocks)"
  by (induction blocks arbitrary: st) (auto intro: fitBlock_inv)

lemma fit_inv:
  assumes "0 < W" "0 < H" "\<forall>b \<in> set blocks. pending b"
  shows "(\<forall>p \<in> set (packedBlocks (fit (Packer W H allow) blocks k)). placed W H p) \<and>
         pairwiseApart (packedBlocks (fit (Packer W H allow) blocks k))"
proof -
  let ?st0 = "\<lparr>count = 0, area = 0, packedBlocks = [], remainingBlocks = [],
                 heap = [\<lparr>x0 = 0, y0 = 0, x1 = W, y1 = H\<rparr>]\<rparr>"
  have "fitInv W H ?st0"
    using assms by (simp add: fitInv_def freeFor_def inBin_def pairwiseApart_def)
  from foldl_fitBlock_inv [OF this assms(3), of "Packer W H allow" k]
  show ?thesis by (simp add: fit_def Packer_def Let_def fitInv_def)
qed

lemma apart_overlapArea:
  "placed W H a \<Longrightarrow> placed W' H' b \<Longrightarrow> apart a b \<Longrightarrow> overlapArea a b = 0"
  by (auto simp: placed_def apart_def overlapArea_def min_def max_def)

section \<open>What the loop of fit does with each block\<close>

lemma findInHeap_find:
  "findInHeap b hp = (case find (fitsIn b) hp of None \<Rightarrow> (b, False) | Some r \<Rightarrow> (placeAt b r, True))"
  by (induction hp) (auto simp: fitsIn_def placeAt_def)

lemma fitBlock_find:
  "fitBlock this k st b =
     (case find (fitsIn b) (heap st) of
        Some r \<Rightarrow> pushPacked k st (adjustHeap (placeAt b r) (heap st)) (placeAt b r)
      | None \<Rightarrow>
          if allow90DegreeRotation this then
            (case find (fitsIn (rotateBlock b)) (heap st) of
               Some r \<Rightarrow> pushPacked k st (adjustHeap (placeAt (rotateBlock b) r) (heap st))
                           (placeAt (rotateBlock b) r)
             | None \<Rightarrow> if packed b then pushPacked k st (heap st) (rotateBlock b)
                       else pushRemaining st (rotateBlock b))
          else if packed b then pushPacked k st (heap st) b else pushRemaining st b)"
  by (auto simp: fitBlock_def findInHeap_find pushPacked_def pushRemaining_def placeAt_def
           split: option.splits)

lemma fitBlock_lists:
  "(\<exists>b' hp. fitBlock this k st b = pushPacked k st hp b' \<and> index b' = index b) \<or>
   (fitBlock this k st b = pushRemaining st (if allow90DegreeRotation this then rotateBlock b else b))"
  unfolding fitBlock_find
  by (auto simp: placeAt_def split: option.splits)

lemma foldl_fitBlock_conserve:
  "count_list (map index (packedBlocks (foldl (fitBlock this k) st blocks))) x +
   count_list (map index (remainingBlocks (foldl (fitBlock this k) st blocks))) x =
   count_list (map index (packedBlocks st)) x + count_list (map index (remainingBlocks st)) x +
   count_list (map index blocks) x"
proof (induction blocks arbitrary: st)
  case Nil
  then show ?case by simp
next
  case (Cons b blocks)
  have "count_list (map index (packedBlocks (fitBlock this k st b))) x +
        count_list (map index (remainingBlocks (fitBlock this k st b))) x =
        count_list (map index (packedBlocks st)) x + count_list (map index (remainingBlocks st)) x +
        (if index b = x then 1 else 0)"
    using fitBlock_lists [of this k st b]
    by (auto simp: pushPacked_def pushRemaining_def)
  then show ?case using Cons.IH [of "fitBlock this k st b"] by simp
qed

lemma foldl_fitBlock_length:
  "length (packedBlocks (foldl (fitBlock this k) st blocks)) +
   length (remainingBlocks (foldl (fitBlock this k) st blocks)) =
   length (packedBlocks st) + length (remainingBlocks st) + length blocks"
proof (induction blocks arbitrary: st)
  case Nil
  then show ?case by simp
next
  case (Cons b blocks)
  have "length (packedBlocks (fitBlock this k st b)) + length (remainingBlocks (fitBlock this k st b))
        = length (packedBlocks st) + length (remainingBlocks st) + 1"
    using fitBlock_lists [of this k st b]
    by (auto simp: pushPacked_def pushRemaining_def)
  then show ?case using Cons.IH [of "fitBlock this k st b"] by simp
qed

lemma foldl_fitBlock_binIndex:
  "\<forall>p \<in> set (packedBlocks st). binIndex p = Some k \<Longrightarrow>
   \<forall>p \<in> set (packedBlocks (foldl (fitBlock this k) st blocks)). binIndex p = Some k"
proof (induction blocks arbitrary: st)
  case Nil
  then show ?case by simp
next
  case (Cons b blocks)
  have "\<forall>p \<in> set (packedBlocks (fitBlock this k st b)). binIndex p = Some k"
    using fitBlock_lists [of this k st b] Cons.prems
    by (auto simp: pushPacked_def pushRemaining_def)
  from Cons.IH [OF this] show ?case by simp
qed

lemma fit_binIndex: "\<forall>p \<in> set (packedBlocks (fit this blocks k)). binIndex p = Some k"
proof -
  let ?st0 = "\<lparr>count = 0, area = 0, packedBlocks = [], remainingBlocks = [],
                 heap = [\<lparr>x0 = 0, y0 = 0, x1 = root_w this, y1 = root_h this\<rparr>]\<rparr>"
  have "\<forall>p \<in> set (packedBlocks ?st0). binIndex p = Some k" by simp
  from foldl_fitBlock_binIndex [OF this, of this blocks]
  show ?thesis by (simp add: fit_def Let_def)
qed

lemma fit_length:
  "length (packedBlocks (fit this blocks k)) + length (remainingBlocks (fit this blocks k)) = length blocks"
  using foldl_fitBlock_length [of this k _ blocks] by (simp add: fit_def Let_def)

lemma fit_count: "count (fit this blocks k) = length (packedBlocks (fit this blocks k))"
  by (simp add: fit_def Let_def)

lemma fit_conserve:
  "count_list (map index (packedBlocks (fit this blocks k))) x +
   count_list (map index (remainingBlocks (fit this blocks k))) x = count_list (map index blocks) x"
  using foldl_fitBlock_conserve [of this k _ blocks x] by (simp add: fit_def Let_def)

lemma foldl_fitBlock_remaining:
  "\<exists>bs. subseq bs blocks \<and>
     remainingBlocks (foldl (fitBlock this k) st blocks) =
       remainingBlocks st @ map (\<lambda>b. if allow90DegreeRotation this then rotateBlock b else b) bs"
proof (induction blocks arbitrary: st)
  case Nil
  then show ?case by simp
next
  case (Cons b blocks)
  let ?f = "\<lambda>b. if allow90DegreeRotation this then rotateBlock b else b"
  from Cons.IH [of "fitBlock this k st b"] obtain bs where
    bs: "subseq bs blocks"
     "remainingBlocks (foldl (fitBlock this k) (fitBlock this k st b) blocks) =
       remainingBlocks (fitBlock this k st b) @ map ?f bs" by blast
  from fitBlock_lists [of this k st b] show ?case
  proof
    assume "\<exists>b' hp. fitBlock this k st b = pushPacked k st hp b' \<and> index b' = index b"
    then have "remainingBlocks (fitBlock this k st b) = remainingBlocks st"
      by (auto simp: pushPacked_def)
    then show ?thesis using bs by (intro exI [of _ bs]) auto
  next
    assume "fitBlock this k st b = pushRemaining st (?f b)"
    then have "remainingBlocks (fitBlock this k st b) = remainingBlocks st @ [?f b]"
      by (simp add: pushRemaining_def)
    then show ?thesis using bs by (intro exI [of _ "b # bs"]) auto
  qed
qed




lemma afterFirst_heap:
  "heap afterFirst = [\<lparr>x0 = 0, y0 = 50, x1 = 100, y1 = 100\<rparr>, \<lparr>x0 = 60, y0 = 0, x1 = 100, y1 = 100\<rparr>]"
  by code_simp



section \<open>Attempts and the attempts loop\<close>

lemma length_interleave: "length (interleave xs ys) = length xs + length ys"
  by (induction xs ys rule: interleave.induct) auto

lemma length_shuffleLoop: "length (shuffleLoop rnd n things) = length things"
  by (induction n arbitrary: things) (auto simp: Let_def)

lemma length_sortBlocks: "length (sortBlocks rnd t blocks) = length blocks"
  by (auto simp: sortBlocks_def sortDescending_def sortBlocksByInterleaving_def Let_def
                 length_interleave shuffle_def length_shuffleLoop)

lemma length_makeBlocks: "length (makeBlocks s its) = length its"
  by (simp add: makeBlocks_def)

lemma length_stepBlocks: "length (stepBlocks hst s ra a v) = length (loopItems v)"
  by (simp add: stepBlocks_def Let_def length_sortBlocks length_makeBlocks stepItems_def)

lemma binStep_length:
  "length (packedBlocks (binStep s n tia i bn att)) + length (remainingBlocks (binStep s n tia i bn att))
   = length (packedBlocks att) + length (remainingBlocks att)"
  using fit_length [of "Packer (width bn) (height bn) (settings_allow90DegreeRotation s)" "remainingBlocks att" i]
  by (simp add: binStep_def Let_def)

lemma binsLoop_length:
  "length (packedBlocks (binsLoop s n tia i bins att)) + length (remainingBlocks (binsLoop s n tia i bins att))
   = length (packedBlocks att) + length (remainingBlocks att)"
proof (induction bins arbitrary: i att)
  case Nil
  then show ?case by simp
next
  case (Cons bn bins)
  show ?case
  proof (cases "remainingBlocks (binStep s n tia i bn att) = []")
    case True
    then show ?thesis using binStep_length [of s n tia i bn att] by (simp add: Let_def)
  next
    case False
    then show ?thesis
      using Cons.IH [of "i + 1" "binStep s n tia i bn att"] binStep_length [of s n tia i bn att]
      by (simp add: Let_def)
  qed
qed

lemma packAttempt_length:
  "length (packedBlocks (packAttempt s tia a blocks)) + length (remainingBlocks (packAttempt s tia a blocks))
   = length blocks"
  using binsLoop_length [of s "length (items s)" tia 0 "makeBins s" "(Attempt a (makeBins s))\<lparr>remainingBlocks := blocks\<rparr>"]
  by (simp add: packAttempt_def Let_def Attempt_def)

lemma packAttempt_index: "attemptIndex (packAttempt s tia a blocks) = a"
proof -
  have bs: "attemptIndex (binStep s n tia' i bn att) = attemptIndex att" for n tia' i bn att
    by (simp add: binStep_def Let_def)
  have "attemptIndex (binsLoop s n tia' i bins att) = attemptIndex att" for n tia' i bins att
    by (induction bins arbitrary: i att) (auto simp: Let_def bs)
  then show ?thesis by (simp add: packAttempt_def Let_def Attempt_def)
qed

lemma fitBlock_area:
  "area st = sum_list (map (\<lambda>b. w b * h b) (packedBlocks st)) \<Longrightarrow>
   area (fitBlock this k st b) = sum_list (map (\<lambda>b. w b * h b) (packedBlocks (fitBlock this k st b)))"
  using fitBlock_lists [of this k st b]
  by (auto simp: pushPacked_def pushRemaining_def)

lemma foldl_fitBlock_area:
  "area st = sum_list (map (\<lambda>b. w b * h b) (packedBlocks st)) \<Longrightarrow>
   area (foldl (fitBlock this k) st blocks) =
     sum_list (map (\<lambda>b. w b * h b) (packedBlocks (foldl (fitBlock this k) st blocks)))"
  by (induction blocks arbitrary: st) (auto intro: fitBlock_area)

lemma fit_area: "area (fit this blocks k) = areaPackedInBin (fit this blocks k)"
proof -
  let ?st0 = "\<lparr>count = 0, area = 0, packedBlocks = [], remainingBlocks = [],
                 heap = [\<lparr>x0 = 0, y0 = 0, x1 = root_w this, y1 = root_h this\<rparr>]\<rparr>"
  have "area ?st0 = sum_list (map (\<lambda>b. w b * h b) (packedBlocks ?st0))" by simp
  from foldl_fitBlock_area [OF this, of this k blocks]
  show ?thesis by (simp add: fit_def Let_def areaPackedInBin_def)
qed

lemma binStep_score:
  "score (binStep s n tia i bn att) =
     jadd (score att)
       (binScore (preferCount s) n tia
          (bn, fit (Packer (width bn) (height bn) (settings_allow90DegreeRotation s))
                 (remainingBlocks att) i))"
  by (simp add: binStep_def Let_def binScore_def fit_area [symmetric] packedCountInBin_def fit_count)

lemma binStep_fields:
  "remainingBlocks (binStep s n tia i bn att) =
     remainingBlocks (fit (Packer (width bn) (height bn) (settings_allow90DegreeRotation s))
                        (remainingBlocks att) i)"
  "binCount (binStep s n tia i bn att) = i + 1"
  by (simp_all add: binStep_def Let_def)

lemma binsLoop_score:
  "score (binsLoop s n tia i bins att) =
     foldl jadd (score att)
       (map (binScore (preferCount s) n tia) (binResults s i bins (remainingBlocks att)))"
proof (induction bins arbitrary: i att)
  case Nil
  then show ?case by simp
next
  case (Cons bn bins)
  show ?case
  proof (cases "remainingBlocks (binStep s n tia i bn att) = []")
    case True
    then show ?thesis
      using binStep_fields(1) [of s n tia i bn att]
      by (simp add: Let_def binStep_score)
  next
    case False
    then show ?thesis
      using Cons.IH [of "i + 1" "binStep s n tia i bn att"] binStep_fields(1) [of s n tia i bn att]
      by (simp add: Let_def binStep_score)
  qed
qed

lemma binsLoop_binCount:
  "binCount (binsLoop s n tia i bins att) =
     (if bins = [] then binCount att else i + length (binResults s i bins (remainingBlocks att)))"
proof (induction bins arbitrary: i att)
  case Nil
  then show ?case by simp
next
  case (Cons bn bins)
  show ?case
  proof (cases "remainingBlocks (binStep s n tia i bn att) = []")
    case True
    then show ?thesis
      using binStep_fields [of s n tia i bn att] by (simp add: Let_def)
  next
    case False
    then show ?thesis
      using Cons.IH [of "i + 1" "binStep s n tia i bn att"] binStep_fields [of s n tia i bn att]
      by (cases bins) (simp_all add: Let_def)
  qed
qed

lemma binsLoop_remaining:
  "length (remainingBlocks (binsLoop s n tia i bins att)) =
     length (remainingBlocks att) -
       sum_list (map (\<lambda>br. packedCountInBin (snd br)) (binResults s i bins (remainingBlocks att)))"
proof (induction bins arbitrary: i att)
  case Nil
  then show ?case by simp
next
  case (Cons bn bins)
  let ?r = "fit (Packer (width bn) (height bn) (settings_allow90DegreeRotation s)) (remainingBlocks att) i"
  have len: "length (packedBlocks ?r) + length (remainingBlocks ?r) = length (remainingBlocks att)"
    by (rule fit_length)
  show ?case
  proof (cases "remainingBlocks (binStep s n tia i bn att) = []")
    case True
    then show ?thesis
      using binStep_fields [of s n tia i bn att] len
      by (simp add: Let_def packedCountInBin_def)
  next
    case False
    then show ?thesis
      using Cons.IH [of "i + 1" "binStep s n tia i bn att"] binStep_fields [of s n tia i bn att] len
      by (simp add: Let_def packedCountInBin_def)
  qed
qed

lemma packAttempt_score:
  "score (packAttempt s tia a blocks) =
     specScore (preferCount s) (length (items s)) tia (length (makeBins s)) blocks
       (binResults s 0 (makeBins s) blocks)"
proof -
  let ?att0 = "(Attempt a (makeBins s))\<lparr>remainingBlocks := blocks\<rparr>"
  have r: "remainingBlocks ?att0 = blocks" "score ?att0 = Num 0" "binCount ?att0 = length (makeBins s)"
    by (simp_all add: Attempt_def)
  have bc: "int (length (makeBins s)) - int (binCount (binsLoop s (length (items s)) tia 0 (makeBins s) ?att0))
      = int (length (makeBins s)) - int (length (binResults s 0 (makeBins s) blocks))"
    using binsLoop_binCount [of s "length (items s)" tia 0 "makeBins s" ?att0] r
    by (cases "makeBins s = []") simp_all
  show ?thesis
    unfolding packAttempt_def Let_def specScore_def
    using binsLoop_score [of s "length (items s)" tia 0 "makeBins s" ?att0]
      binsLoop_remaining [of s "length (items s)" tia 0 "makeBins s" ?att0] bc r
    by simp
qed


lemma below_boundNat: "below a N \<longleftrightarrow> a < boundNat N"
  by (cases N) auto

lemma attemptStep_fields:
  "attemptLog (attemptStep hst s ra a v) =
     attemptLog v @ [(packAttempt s (stepArea hst s a v) a (stepBlocks hst s ra a v),
                      (case bestAttempt v of
                         None \<Rightarrow> packAttempt s (stepArea hst s a v) a (stepBlocks hst s ra a v)
                       | Some b \<Rightarrow>
                           if jgt (score (packAttempt s (stepArea hst s a v) a (stepBlocks hst s ra a v)))
                                  (score b)
                           then packAttempt s (stepArea hst s a v) a (stepBlocks hst s ra a v) else b))]"
  "bestAttempt (attemptStep hst s ra a v) = Some (snd (last (attemptLog (attemptStep hst s ra a v))))"
  "loopItems (attemptStep hst s ra a v) = stepItems hst s v"
  "totalItemArea (attemptStep hst s ra a v) = stepArea hst s a v"
  by (simp_all add: attemptStep_def Let_def)

lemma attemptsLoop_invariant:
  assumes "\<And>hst s ra a v. I hst s ra v \<Longrightarrow> I hst s ra (attemptStep hst s ra a v)"
  shows "I hst s ra v \<Longrightarrow> I hst s ra (attemptsLoop hst s ra a v)"
proof (induction hst s ra a v rule: attemptsLoop.induct)
  case (1 hst s ra a v)
  show ?case
  proof (cases "below a (maxAttemptCountOf s ra)")
    case False
    then show ?thesis using "1.prems" by (subst attemptsLoop.simps) simp
  next
    case True
    have I1: "I hst s ra (attemptStep hst s ra a v)" by (rule assms [OF "1.prems"])
    show ?thesis
    proof (cases "doNotSort s \<or> (\<not> tryHarder s \<and> a > 4 \<and>
        (case bestAttempt (attemptStep hst s ra a v) of None \<Rightarrow> False
         | Some b \<Rightarrow> remainingBlocks b = []))")
      case ex: True
      then show ?thesis using True I1 by (subst attemptsLoop.simps) (auto simp: Let_def)
    next
      case nex: False
      then have "I hst s ra (attemptsLoop hst s ra (a + 1) (attemptStep hst s ra a v))"
        using "1.IH" [OF True refl _ _ I1] by auto
      then show ?thesis using True nex by (subst attemptsLoop.simps) (auto simp: Let_def)
    qed
  qed
qed

lemma attemptsLoop_log:
  "\<exists>M. attemptLog (attemptsLoop hst s ra a v) = attemptLog v @ M \<and>
       validLog s (boundNat (maxAttemptCountOf s ra)) a M \<and>
       bestAttempt (attemptsLoop hst s ra a v) =
         (if M = [] then bestAttempt v else Some (snd (last M)))"
proof (induction hst s ra a v rule: attemptsLoop.induct)
  case (1 hst s ra a v)
  let ?N = "boundNat (maxAttemptCountOf s ra)"
  show ?case
  proof (cases "below a (maxAttemptCountOf s ra)")
    case False
    then have "attemptsLoop hst s ra a v = v" by (subst attemptsLoop.simps) simp
    with False show ?thesis by (intro exI [of _ "[]"]) (simp add: below_boundNat)
  next
    case True
    let ?v1 = "attemptStep hst s ra a v"
    obtain e where e: "attemptLog ?v1 = attemptLog v @ [e]" "bestAttempt ?v1 = Some (snd e)"
      "attemptIndex (fst e) = a"
      using attemptStep_fields(1,2) [of hst s ra a v] by (simp add: packAttempt_index)
    show ?thesis
    proof (cases "doNotSort s \<or> (\<not> tryHarder s \<and> a > 4 \<and> remainingBlocks (snd e) = [])")
      case ex: True
      then have "attemptsLoop hst s ra a v = ?v1"
        using True e(2) by (subst attemptsLoop.simps) (auto simp: Let_def)
      then show ?thesis
        using e ex True by (intro exI [of _ "[e]"]) (auto simp: below_boundNat)
    next
      case nex: False
      then have eq: "attemptsLoop hst s ra a v = attemptsLoop hst s ra (a + 1) ?v1"
        using True e(2) by (subst attemptsLoop.simps) (auto simp: Let_def)
      from nex e(2) have "\<not> doNotSort s" "\<not> (\<not> tryHarder s \<and> 4 < a \<and>
          (case bestAttempt ?v1 of None \<Rightarrow> False | Some b \<Rightarrow> remainingBlocks b = []))"
        by auto
      from "1.IH" [OF True refl this]
      obtain M where M: "attemptLog (attemptsLoop hst s ra (a + 1) ?v1) = attemptLog ?v1 @ M"
        "validLog s ?N (a + 1) M"
        "bestAttempt (attemptsLoop hst s ra (a + 1) ?v1) =
           (if M = [] then bestAttempt ?v1 else Some (snd (last M)))"
        by blast
      show ?thesis
        unfolding eq using M e nex True
        by (intro exI [of _ "e # M"]) (auto simp: below_boundNat)
    qed
  qed
qed

lemma validLog_nth:
  "validLog s N a M \<Longrightarrow> k < length M \<Longrightarrow>
     attemptIndex (fst (M ! k)) = a + k \<and> a + k < N \<and>
     (Suc k < length M \<longleftrightarrow>
        Suc (a + k) < N \<and> \<not> doNotSort s \<and>
        \<not> (\<not> tryHarder s \<and> 4 < a + k \<and> remainingBlocks (snd (M ! k)) = []))"
proof (induction M arbitrary: a k)
  case Nil
  then show ?case by simp
next
  case (Cons e M)
  show ?case
  proof (cases k)
    case 0
    then show ?thesis using Cons.prems by (cases M) (auto split: if_splits)
  next
    case (Suc k')
    then have "M \<noteq> []" using Cons.prems by auto
    then have v: "validLog s N (a + 1) M" using Cons.prems(1) by (auto split: if_splits)
    from Cons.IH [OF v, of k'] Suc Cons.prems(2) show ?thesis by simp
  qed
qed

lemma validLog_full:
  "validLog s N a M \<Longrightarrow> \<not> doNotSort s \<Longrightarrow>
   (\<forall>e \<in> set M. tryHarder s \<or> remainingBlocks (snd e) \<noteq> []) \<Longrightarrow> length M = N - a"
proof (induction M arbitrary: a)
  case Nil
  then show ?case by simp
next
  case (Cons e M)
  then have "validLog s N (a + 1) M" "a < N" by (auto split: if_splits)
  with Cons.IH [of "a + 1"] Cons.prems show ?case by auto
qed

lemma validLog_once:
  "validLog s N a M \<Longrightarrow> doNotSort s \<Longrightarrow> length M = (if a < N then 1 else 0)"
  by (cases M) auto

lemma runLog_valid:
  "validLog s (budget s ra) 0 (runLog hst s ra) \<and>
   bestAttempt (attemptsLoop hst s ra 0 (initialVars s)) =
     (if runLog hst s ra = [] then None else Some (snd (last (runLog hst s ra))))"
  using attemptsLoop_log [of hst s ra 0 "initialVars s"]
  by (auto simp: runLog_def budget_def initialVars_def)

lemma packItems_Done:
  assumes "\<not> debugBinBounds s" "0 < budget s ra"
  shows "\<exists>r. packItemsIllustrator hst s ra = Inr (Done r) \<and> attempts r = runLog hst s ra \<and>
           runLog hst s ra \<noteq> [] \<and> best r = snd (last (runLog hst s ra)) \<and>
           finalPackedBlockCount r = length (packedBlocks (best r)) \<and>
           remainingBlockCount r = int (length (items s)) - int (length (packedBlocks (best r)))"
proof -
  have ne: "runLog hst s ra \<noteq> []"
    using runLog_valid [of s ra hst] assms(2) by (cases "runLog hst s ra") auto
  then have "bestAttempt (attemptsLoop hst s ra 0 (initialVars s)) = Some (snd (last (runLog hst s ra)))"
    using runLog_valid [of s ra hst] by simp
  then show ?thesis
    using assms(1) ne by (simp add: packItemsIllustrator_def Let_def runLog_def)
qed

lemma packItems_DoneD:
  assumes "packItemsIllustrator hst s ra = Inr (Done r)"
  shows "attempts r = runLog hst s ra \<and> runLog hst s ra \<noteq> [] \<and>
         best r = snd (last (runLog hst s ra)) \<and>
         finalPackedBlockCount r = length (packedBlocks (best r)) \<and>
         remainingBlockCount r = int (length (items s)) - int (length (packedBlocks (best r)))"
proof -
  have nd: "\<not> debugBinBounds s" using assms by (auto simp: packItemsIllustrator_def)
  obtain b where b: "bestAttempt (attemptsLoop hst s ra 0 (initialVars s)) = Some b"
    using assms nd by (auto simp: packItemsIllustrator_def Let_def split: option.splits)
  then have ne: "runLog hst s ra \<noteq> []" "b = snd (last (runLog hst s ra))"
    using runLog_valid [of s ra hst] by (auto split: if_splits)
  show ?thesis
    using assms nd b ne by (auto simp: packItemsIllustrator_def Let_def runLog_def)
qed

lemma length_stepItems: "length (stepItems hst s v) = length (loopItems v)"
  by (simp add: stepItems_def)

lemma runLog_conserved:
  "e \<in> set (runLog hst s ra) \<Longrightarrow> conserved s (fst e) \<and> conserved s (snd e)"
proof -
  let ?I = "\<lambda>(hst::host) s (ra::bool) v. length (loopItems v) = length (items s) \<and>
      (\<forall>e \<in> set (attemptLog v). conserved s (fst e) \<and> conserved s (snd e)) \<and>
      (\<forall>b. bestAttempt v = Some b \<longrightarrow> conserved s b)"
  have step: "?I hst s ra (attemptStep hst s ra a v)" if "?I hst s ra v" for hst s ra a v
  proof -
    have c: "conserved s (packAttempt s (stepArea hst s a v) a (stepBlocks hst s ra a v))"
      using that by (simp add: conserved_def packAttempt_length length_stepBlocks)
    show ?thesis
      using that c
      by (auto simp: attemptStep_def Let_def length_stepItems split: option.splits)
  qed
  have "?I hst s ra (attemptsLoop hst s ra 0 (initialVars s))"
    by (rule attemptsLoop_invariant [where I = ?I, OF step]) (simp_all add: initialVars_def)
  then show "e \<in> set (runLog hst s ra) \<Longrightarrow> conserved s (fst e) \<and> conserved s (snd e)"
    by (simp add: runLog_def)
qed

text \<open>
  Claim C3. Conservation: \<open>fit\<close> puts every block of its input in exactly one of
  \<open>packedBlocks\<close> and \<open>remainingBlocks\<close> (the two lengths add up to the length of the
  input, the indices of the two lists together are those of the input with the same
  multiplicities, and \<open>count\<close> is the length of \<open>packedBlocks\<close>); so for every attempt
  of a run, for the best attempt after it, and for the final result, the packed count
  plus the remaining count is the number of items.
\<close>

theorem conservation:
  "length (packedBlocks (fit this blocks k)) + length (remainingBlocks (fit this blocks k))
     = length blocks
   \<and> count (fit this blocks k) = length (packedBlocks (fit this blocks k))
   \<and> count_list (map index (packedBlocks (fit this blocks k))) x +
     count_list (map index (remainingBlocks (fit this blocks k))) x
     = count_list (map index blocks) x
   \<and> (\<forall>e \<in> set (runLog hst s ra).
        length (packedBlocks (fst e)) + length (remainingBlocks (fst e)) = length (items s) \<and>
        length (packedBlocks (snd e)) + length (remainingBlocks (snd e)) = length (items s))
   \<and> (packItemsIllustrator hst s ra = Inr (Done r) \<longrightarrow>
        length (packedBlocks (best r)) + length (remainingBlocks (best r)) = length (items s) \<and>
        finalPackedBlockCount r = length (packedBlocks (best r)) \<and>
        remainingBlockCount r = int (length (remainingBlocks (best r))))"
proof -
  have log: "\<forall>e \<in> set (runLog hst s ra).
        length (packedBlocks (fst e)) + length (remainingBlocks (fst e)) = length (items s) \<and>
        length (packedBlocks (snd e)) + length (remainingBlocks (snd e)) = length (items s)"
    using runLog_conserved [of _ hst s ra] by (auto simp: conserved_def)
  have fin: "length (packedBlocks (best r)) + length (remainingBlocks (best r)) = length (items s) \<and>
        finalPackedBlockCount r = length (packedBlocks (best r)) \<and>
        remainingBlockCount r = int (length (remainingBlocks (best r)))"
    if "packItemsIllustrator hst s ra = Inr (Done r)"
  proof -
    from packItems_DoneD [OF that] have d: "runLog hst s ra \<noteq> []"
      "best r = snd (last (runLog hst s ra))"
      "finalPackedBlockCount r = length (packedBlocks (best r))"
      "remainingBlockCount r = int (length (items s)) - int (length (packedBlocks (best r)))"
      by auto
    have "last (runLog hst s ra) \<in> set (runLog hst s ra)" using d(1) by simp
    then have "conserved s (best r)" using runLog_conserved [of _ hst s ra] d(2) by auto
    then show ?thesis using d(3,4) by (simp add: conserved_def)
  qed
  show ?thesis
    using fit_length [of this blocks k] fit_count [of this blocks k]
      fit_conserve [of this blocks k x] log fin
    by blast
qed

lemma example_budget: "budget exampleSettings False = 8"
  by (simp add: budget_def maxAttemptCountOf_def exampleSettings_def)

theorem conservation_witness:
  "length (packedBlocks (fit (Packer 100 100 True) exampleBlocks 0)) +
     length (remainingBlocks (fit (Packer 100 100 True) exampleBlocks 0)) = 3
   \<and> runLog exampleHost exampleSettings False \<noteq> []
   \<and> length (packedBlocks (fst (last (runLog exampleHost exampleSettings False)))) +
     length (remainingBlocks (fst (last (runLog exampleHost exampleSettings False)))) = 2
   \<and> (case packItemsIllustrator exampleHost exampleSettings False of
        Inr (Done r) \<Rightarrow>
          length (packedBlocks (best r)) + length (remainingBlocks (best r)) = 2 \<and>
          remainingBlockCount r = int (length (remainingBlocks (best r)))
      | _ \<Rightarrow> False)"
proof -
  have nd: "\<not> debugBinBounds exampleSettings" by (simp add: exampleSettings_def)
  from packItems_Done [OF nd, of False exampleHost] obtain r where
    r: "packItemsIllustrator exampleHost exampleSettings False = Inr (Done r)"
       "runLog exampleHost exampleSettings False \<noteq> []"
    by (auto simp: example_budget)
  have n: "length (items exampleSettings) = 2" "length exampleBlocks = 3"
    by (simp_all add: exampleSettings_def exampleBlocks_def)
  have "last (runLog exampleHost exampleSettings False) \<in> set (runLog exampleHost exampleSettings False)"
    using r(2) by simp
  then show ?thesis
    using conservation [of "Packer 100 100 True" exampleBlocks 0 0 exampleHost exampleSettings False r]
      r n
    by auto
qed


section \<open>The score and the early exit\<close>

lemma foldl_area_sum:
  "foldl (\<lambda>t b. t + w b * h b) t0 blocks = t0 + sum_list (map (\<lambda>b. w b * h b) blocks)"
  by (induction blocks arbitrary: t0) auto

lemma length_makeBins: "length (makeBins s) = length (artboards s)"
  by (simp add: makeBins_def)

text \<open>
  Claim C6. Score formula: the score of the attempt made in one pass of the attempts
  loop is the sum, over the bins the attempt processed, of
  \<open>(binWidth * binHeight / areaPackedInBin) * scoreFactor\<close>, where \<open>scoreFactor\<close> is
  \<open>totalItemCount / packedCountInBin\<close> when \<open>bestFitBy\<close> is \<open>'count'\<close> and
  \<open>totalItemArea / areaPackedInBin\<close> when it is \<open>'area'\<close>, plus 100 for every bin not
  used, minus 100 for every block left unpacked. \<open>totalItemArea\<close> is the sum of the
  areas of the blocks of the first attempt and does not change afterwards.
\<close>

theorem score_formula:
  "(bestFitBy s = ''count'' \<longrightarrow>
      score (fst (last (attemptLog (attemptStep hst s ra a v)))) =
        specScore True (length (items s)) (totalItemArea (attemptStep hst s ra a v))
          (length (artboards s)) (stepBlocks hst s ra a v)
          (binResults s 0 (makeBins s) (stepBlocks hst s ra a v)))
   \<and> (bestFitBy s = ''area'' \<longrightarrow>
      score (fst (last (attemptLog (attemptStep hst s ra a v)))) =
        specScore False (length (items s)) (totalItemArea (attemptStep hst s ra a v))
          (length (artboards s)) (stepBlocks hst s ra a v)
          (binResults s 0 (makeBins s) (stepBlocks hst s ra a v)))
   \<and> totalItemArea (attemptStep hst s ra 0 (initialVars s)) =
       sum_list (map (\<lambda>b. w b * h b) (makeBlocks s (stepItems hst s (initialVars s))))
   \<and> (0 < a \<longrightarrow> totalItemArea (attemptStep hst s ra a v) = totalItemArea v)"
proof -
  have att: "fst (last (attemptLog (attemptStep hst s ra a v))) =
      packAttempt s (stepArea hst s a v) a (stepBlocks hst s ra a v)"
    by (simp add: attemptStep_fields(1))
  have pc: "bestFitBy s = ''count'' \<Longrightarrow> preferCount s" "bestFitBy s = ''area'' \<Longrightarrow> \<not> preferCount s"
    by (simp_all add: preferCount_def)
  have t0: "totalItemArea (attemptStep hst s ra 0 (initialVars s)) =
       sum_list (map (\<lambda>b. w b * h b) (makeBlocks s (stepItems hst s (initialVars s))))"
    by (simp add: attemptStep_fields(4) stepArea_def foldl_area_sum initialVars_def)
  have ta: "0 < a \<Longrightarrow> totalItemArea (attemptStep hst s ra a v) = totalItemArea v"
    by (simp add: attemptStep_fields(4) stepArea_def)
  show ?thesis
    using pc t0 ta
    by (auto simp: att attemptStep_fields(4) packAttempt_score length_makeBins)
qed

lemma example_score:
  "score (fst (last (attemptLog (firstPass threeItemSettings)))) = Num (- (3025 / 31))"
  by code_simp

lemma example_score_area:
  "score (fst (last (attemptLog (firstPass (threeItemSettings\<lparr>bestFitBy := ''area''\<rparr>)))))
     = Num (- (94025 / 961))"
  by code_simp

theorem score_formula_witness:
  "bestFitBy threeItemSettings = ''count''
   \<and> specScore True 3 (totalItemArea (firstPass threeItemSettings)) 1
        (stepBlocks exampleHost threeItemSettings False 0 (initialVars threeItemSettings))
        (binResults threeItemSettings 0 (makeBins threeItemSettings)
           (stepBlocks exampleHost threeItemSettings False 0 (initialVars threeItemSettings)))
      = Num (- (3025 / 31))
   \<and> bestFitBy (threeItemSettings\<lparr>bestFitBy := ''area''\<rparr>) = ''area''
   \<and> specScore False 3 (totalItemArea (firstPass (threeItemSettings\<lparr>bestFitBy := ''area''\<rparr>))) 1
        (stepBlocks exampleHost (threeItemSettings\<lparr>bestFitBy := ''area''\<rparr>) False 0
           (initialVars (threeItemSettings\<lparr>bestFitBy := ''area''\<rparr>)))
        (binResults (threeItemSettings\<lparr>bestFitBy := ''area''\<rparr>) 0
           (makeBins (threeItemSettings\<lparr>bestFitBy := ''area''\<rparr>))
           (stepBlocks exampleHost (threeItemSettings\<lparr>bestFitBy := ''area''\<rparr>) False 0
              (initialVars (threeItemSettings\<lparr>bestFitBy := ''area''\<rparr>))))
      = Num (- (94025 / 961))"
proof -
  have c: "bestFitBy threeItemSettings = ''count''"
    by (simp add: threeItemSettings_def exampleSettings_def)
  have n: "length (items threeItemSettings) = 3" "length (artboards threeItemSettings) = 1"
    by (simp_all add: threeItemSettings_def exampleSettings_def threeItems_def)
  have n': "length (items (threeItemSettings\<lparr>bestFitBy := ''area''\<rparr>)) = 3"
    "length (artboards (threeItemSettings\<lparr>bestFitBy := ''area''\<rparr>)) = 1"
    by (simp_all add: threeItemSettings_def exampleSettings_def threeItems_def)
  show ?thesis
    using score_formula [of threeItemSettings exampleHost False 0 "initialVars threeItemSettings"]
      score_formula [of "threeItemSettings\<lparr>bestFitBy := ''area''\<rparr>" exampleHost False 0
        "initialVars (threeItemSettings\<lparr>bestFitBy := ''area''\<rparr>)"]
      example_score example_score_area c
    unfolding firstPass_def n n' by simp
qed


lemma getMaxAttemptCount_log:
  assumes "0 < n"
  shows "getMaxAttemptCount n = Finite (min 200 (4 + \<lfloor>log 2 (real n) * 5\<rfloor>))"
proof -
  have "log 2 (real (n ^ 5)) = 5 * log 2 (real n)"
    using assms by (simp add: log_nat_power)
  then have "int (floorlog 2 (n ^ 5)) - 1 = \<lfloor>log 2 (real n) * 5\<rfloor>"
    using assms by (simp add: floorlog_def mult.commute)
  then show ?thesis using assms by (simp add: getMaxAttemptCount_def)
qed

lemma getMaxAttemptCount_pos:
  assumes "0 < n"
  shows "0 < boundNat (getMaxAttemptCount n)"
proof -
  have "floorlog 2 (n ^ 5) \<noteq> 0" using assms by (simp add: floorlog_eq_zero_iff)
  then show ?thesis using assms by (simp add: getMaxAttemptCount_def)
qed

lemma runLog_best:
  assumes "k < length (runLog hst s ra)"
  shows "snd (runLog hst s ra ! k) =
     (if k = 0 then fst (runLog hst s ra ! 0)
      else if jgt (score (fst (runLog hst s ra ! k))) (score (snd (runLog hst s ra ! (k - 1))))
           then fst (runLog hst s ra ! k) else snd (runLog hst s ra ! (k - 1)))"
proof -
  let ?P = "\<lambda>L k. snd (L ! k) =
     (if k = 0 then fst (L ! 0)
      else if jgt (score (fst (L ! k))) (score (snd (L ! (k - 1))))
           then fst (L ! k) else snd (L ! (k - 1)))"
  let ?I = "\<lambda>(hst::host) (s::settings) (ra::bool) v.
      bestAttempt v = (if attemptLog v = [] then None else Some (snd (last (attemptLog v)))) \<and>
      (\<forall>k < length (attemptLog v). ?P (attemptLog v) k)"
  have step: "?I hst s ra (attemptStep hst s ra a v)" if I: "?I hst s ra v" for hst s ra a v
  proof -
    let ?L = "attemptLog v"
    define att where "att = packAttempt s (stepArea hst s a v) a (stepBlocks hst s ra a v)"
    define e where "e = (att, (case bestAttempt v of None \<Rightarrow> att
                | Some b \<Rightarrow> if jgt (score att) (score b) then att else b))"
    have e: "attemptLog (attemptStep hst s ra a v) = ?L @ [e]"
      "bestAttempt (attemptStep hst s ra a v) = Some (snd e)"
      "snd e = (case bestAttempt v of None \<Rightarrow> fst e
                | Some b \<Rightarrow> if jgt (score (fst e)) (score b) then fst e else b)"
      by (auto simp: attemptStep_def Let_def e_def att_def split: option.splits)
    have "?P (?L @ [e]) k" if k: "k < length (?L @ [e])" for k
    proof (cases "k < length ?L")
      case True
      then have "?P ?L k" using I by simp
      moreover have "k - 1 < length ?L" "0 < length ?L" using True by arith+
      then have "(?L @ [e]) ! (k - 1) = ?L ! (k - 1)" "(?L @ [e]) ! 0 = ?L ! 0"
        by (simp_all only: nth_append if_True)
      moreover have "(?L @ [e]) ! k = ?L ! k"
        using True by (simp only: nth_append if_True)
      ultimately show ?thesis by simp
    next
      case False
      then have kl: "k = length ?L" using k by simp
      show ?thesis
      proof (cases "?L = []")
        case True
        then have "bestAttempt v = None" using I by simp
        then show ?thesis using e(3) kl True by simp
      next
        case ne: False
        then have b: "bestAttempt v = Some (snd (last ?L))" using I by simp
        have "(?L @ [e]) ! (k - 1) = last ?L"
          using ne kl by (simp add: nth_append last_conv_nth)
        then show ?thesis using e(3) b kl ne by simp
      qed
    qed
    then show ?thesis using e(1,2) by simp
  qed
  have "?I hst s ra (attemptsLoop hst s ra 0 (initialVars s))"
    by (rule attemptsLoop_invariant [where I = ?I, OF step]) (simp_all add: initialVars_def)
  then show ?thesis using assms by (simp add: runLog_def)
qed

text \<open>
  Claim C7 as amended. When \<open>doNotSort\<close> is not set, the attempts have the indices
  0, 1, 2, ... below the bound, and none is made exactly when the bound allows none;
  when moreover \<open>tryHarder\<close> is not set, after the attempt of index \<open>k\<close> a further
  attempt is made exactly when the bound allows one and it is not the case that
  \<open>k > 4\<close> and the current best attempt has no remaining block; when \<open>tryHarder\<close> is set
  (and \<open>doNotSort\<close> is not), as many attempts are made as the bound allows. The current
  best attempt is the first attempt, and later the new attempt when its score is
  greater than that of the best so far.
\<close>

theorem early_exit:
  assumes "\<not> doNotSort s"
  shows "(\<forall>k < length (runLog hst s ra).
            attemptIndex (fst (runLog hst s ra ! k)) = k \<and> k < budget s ra)
     \<and> (runLog hst s ra = [] \<longleftrightarrow> budget s ra = 0)
     \<and> (\<not> tryHarder s \<longrightarrow>
          (\<forall>k < length (runLog hst s ra).
             Suc k < length (runLog hst s ra) \<longleftrightarrow>
               Suc k < budget s ra \<and>
               \<not> (4 < k \<and> remainingBlocks (snd (runLog hst s ra ! k)) = [])))
     \<and> (tryHarder s \<longrightarrow> length (runLog hst s ra) = budget s ra)
     \<and> (\<forall>k < length (runLog hst s ra).
          snd (runLog hst s ra ! k) =
            (if k = 0 then fst (runLog hst s ra ! 0)
             else if jgt (score (fst (runLog hst s ra ! k)))
                         (score (snd (runLog hst s ra ! (k - 1))))
                  then fst (runLog hst s ra ! k) else snd (runLog hst s ra ! (k - 1))))"
proof -
  have v: "validLog s (budget s ra) 0 (runLog hst s ra)"
    using runLog_valid [of s ra hst] by simp
  have nth: "attemptIndex (fst (runLog hst s ra ! k)) = k \<and> k < budget s ra \<and>
     (Suc k < length (runLog hst s ra) \<longleftrightarrow>
        Suc k < budget s ra \<and>
        \<not> (\<not> tryHarder s \<and> 4 < k \<and> remainingBlocks (snd (runLog hst s ra ! k)) = []))"
    if "k < length (runLog hst s ra)" for k
    using validLog_nth [OF v that] assms by simp
  have emp: "runLog hst s ra = [] \<longleftrightarrow> budget s ra = 0"
    using v by (cases "runLog hst s ra") auto
  have full: "tryHarder s \<Longrightarrow> length (runLog hst s ra) = budget s ra"
    using validLog_full [OF v assms] by simp
  show ?thesis
    using nth emp full runLog_best [of _ hst s ra] by blast
qed

lemma example_log6: "length (runLog exampleHost exampleSettings False) = 6"
  by code_simp

lemma example_log_done:
  "remainingBlocks (snd (runLog exampleHost exampleSettings False ! 5)) = []"
  by code_simp

lemma example_log8: "length (runLog exampleHost (exampleSettings\<lparr>tryHarder := True\<rparr>) False) = 8"
  by code_simp

theorem early_exit_witness:
  "\<not> doNotSort exampleSettings \<and> \<not> tryHarder exampleSettings
   \<and> budget exampleSettings False = 8
   \<and> length (runLog exampleHost exampleSettings False) = 6
   \<and> attemptIndex (fst (runLog exampleHost exampleSettings False ! 5)) = 5
   \<and> remainingBlocks (snd (runLog exampleHost exampleSettings False ! 5)) = []
   \<and> tryHarder (exampleSettings\<lparr>tryHarder := True\<rparr>)
   \<and> length (runLog exampleHost (exampleSettings\<lparr>tryHarder := True\<rparr>) False)
       = budget (exampleSettings\<lparr>tryHarder := True\<rparr>) False"
proof -
  have f: "\<not> doNotSort exampleSettings" "\<not> tryHarder exampleSettings"
    "\<not> doNotSort (exampleSettings\<lparr>tryHarder := True\<rparr>)"
    by (simp_all add: exampleSettings_def)
  have "(5::nat) < length (runLog exampleHost exampleSettings False)"
    by (simp add: example_log6)
  then show ?thesis
    using early_exit [OF f(1), of exampleHost False] early_exit [OF f(3), of exampleHost False]
      f example_log6 example_log_done example_budget
    by auto
qed

text \<open>
  Claim C7 says that with \<open>tryHarder\<close> set the full budget is always run. With
  \<open>doNotSort\<close> also set the loop leaves after its first attempt: one attempt of a
  budget of 8.
\<close>

theorem early_exit_counterexample:
  "tryHarder (exampleSettings\<lparr>tryHarder := True, doNotSort := True\<rparr>)
   \<and> budget (exampleSettings\<lparr>tryHarder := True, doNotSort := True\<rparr>) False = 8
   \<and> length (runLog exampleHost (exampleSettings\<lparr>tryHarder := True, doNotSort := True\<rparr>) False) = 1"
  by code_simp

section \<open>Runs without bins and runs without items\<close>

lemma budget_pos:
  assumes "items s \<noteq> []" "\<forall>n. maxAttemptCount s = Some n \<longrightarrow> 0 \<le> n"
  shows "0 < budget s ra"
proof -
  have g: "0 < boundNat (getMaxAttemptCount (length (items s)))"
    using assms(1) by (intro getMaxAttemptCount_pos) simp
  show ?thesis
  proof (cases "maxAttemptCount s")
    case None
    then show ?thesis using g by (simp add: budget_def maxAttemptCountOf_def)
  next
    case (Some n)
    then have "0 \<le> n" using assms(2) by simp
    then show ?thesis using g Some by (auto simp: budget_def maxAttemptCountOf_def)
  qed
qed

lemma packAttempt_no_bins:
  "artboards s = [] \<Longrightarrow> length blocks = length (items s) \<Longrightarrow>
     nothingPacked s (packAttempt s tia a blocks)"
  by (simp add: packAttempt_def makeBins_def Let_def Attempt_def nothingPacked_def jsub_def)

lemma runLog_no_bins:
  assumes "artboards s = []" "e \<in> set (runLog hst s ra)"
  shows "nothingPacked s (fst e) \<and> nothingPacked s (snd e)"
proof -
  let ?I = "\<lambda>(hst::host) s (ra::bool) v. artboards s = [] \<longrightarrow>
      length (loopItems v) = length (items s) \<and>
      (\<forall>e \<in> set (attemptLog v). nothingPacked s (fst e) \<and> nothingPacked s (snd e)) \<and>
      (\<forall>b. bestAttempt v = Some b \<longrightarrow> nothingPacked s b)"
  have step: "?I hst s ra (attemptStep hst s ra a v)" if "?I hst s ra v" for hst s ra a v
  proof (cases "artboards s = []")
    case True
    have c: "nothingPacked s (packAttempt s (stepArea hst s a v) a (stepBlocks hst s ra a v))"
      using that True by (intro packAttempt_no_bins) (simp_all add: length_stepBlocks)
    show ?thesis
      using that c True
      by (auto simp: attemptStep_def Let_def length_stepItems split: option.splits)
  next
    case False
    then show ?thesis by simp
  qed
  have "?I hst s ra (attemptsLoop hst s ra 0 (initialVars s))"
    by (rule attemptsLoop_invariant [where I = ?I, OF step]) (simp_all add: initialVars_def)
  then show ?thesis using assms by (simp add: runLog_def)
qed

text \<open>
  Claim C8 as amended. With no bins (and at least one item, and a \<open>maxAttemptCount\<close>
  that is not negative) the run raises no error: it makes every attempt its bound
  allows (one when \<open>doNotSort\<close> is set), each with an empty bins loop, so each attempt
  packs nothing, uses no bin and scores minus 100 times the number of items, and the
  run ends with every item remaining.
\<close>

theorem no_bins_run:
  assumes "artboards s = []" "\<not> debugBinBounds s" "items s \<noteq> []"
    and "\<forall>n. maxAttemptCount s = Some n \<longrightarrow> 0 \<le> n"
  shows "\<exists>r. packItemsIllustrator hst s ra = Inr (Done r) \<and>
           0 < length (attempts r) \<and>
           length (attempts r) = (if doNotSort s then 1 else budget s ra) \<and>
           (\<forall>e \<in> set (attempts r). nothingPacked s (fst e)) \<and>
           nothingPacked s (best r) \<and>
           finalPackedBlockCount r = 0 \<and>
           remainingBlockCount r = int (length (items s))"
proof -
  have bp: "0 < budget s ra" by (rule budget_pos [OF assms(3,4)])
  from packItems_Done [OF assms(2) bp, of hst] obtain r where
    r: "packItemsIllustrator hst s ra = Inr (Done r)" "attempts r = runLog hst s ra"
       "runLog hst s ra \<noteq> []" "best r = snd (last (runLog hst s ra))"
       "finalPackedBlockCount r = length (packedBlocks (best r))"
       "remainingBlockCount r = int (length (items s)) - int (length (packedBlocks (best r)))"
    by blast
  have np: "nothingPacked s (fst e) \<and> nothingPacked s (snd e)" if "e \<in> set (runLog hst s ra)" for e
    by (rule runLog_no_bins [OF assms(1) that])
  have "last (runLog hst s ra) \<in> set (runLog hst s ra)" using r(3) by simp
  then have nb: "nothingPacked s (best r)" using np r(4) by auto
  have rem: "remainingBlocks (snd e) \<noteq> []" if "e \<in> set (runLog hst s ra)" for e
    using np [OF that] assms(3) by (auto simp: nothingPacked_def)
  have v: "validLog s (budget s ra) 0 (runLog hst s ra)"
    using runLog_valid [of s ra hst] by simp
  have len: "length (runLog hst s ra) = (if doNotSort s then 1 else budget s ra)"
  proof (cases "doNotSort s")
    case True
    then show ?thesis using validLog_once [OF v True] bp by simp
  next
    case False
    then show ?thesis using validLog_full [OF v False] rem by simp
  qed
  show ?thesis
    using r np nb len bp by (intro exI [of _ r]) (auto simp: nothingPacked_def)
qed

text \<open>
  Claim C8 says that a run with zero bins fails at once with an error and makes no
  attempt. On no artboards and two items, with a budget of 2, the run returns normally
  after 2 attempts with 2 items remaining.
\<close>

theorem no_bins_counterexample:
  "artboards (exampleSettings\<lparr>artboards := [], maxAttemptCount := Some 2\<rparr>) = []
   \<and> (case packItemsIllustrator exampleHost
              (exampleSettings\<lparr>artboards := [], maxAttemptCount := Some 2\<rparr>) False of
        Inr (Done r) \<Rightarrow> length (attempts r) = 2 \<and> remainingBlockCount r = 2
      | _ \<Rightarrow> False)"
  by code_simp

theorem no_bins_run_witness:
  "artboards (exampleSettings\<lparr>artboards := [], maxAttemptCount := Some 2\<rparr>) = []
   \<and> \<not> debugBinBounds (exampleSettings\<lparr>artboards := [], maxAttemptCount := Some 2\<rparr>)
   \<and> items (exampleSettings\<lparr>artboards := [], maxAttemptCount := Some 2\<rparr>) \<noteq> []
   \<and> maxAttemptCount (exampleSettings\<lparr>artboards := [], maxAttemptCount := Some 2\<rparr>) = Some 2
   \<and> (case packItemsIllustrator exampleHost
              (exampleSettings\<lparr>artboards := [], maxAttemptCount := Some 2\<rparr>) False of
        Inr (Done r) \<Rightarrow>
          length (attempts r) = 2 \<and> packedBlocks (best r) = [] \<and>
          score (best r) = Num (- 200) \<and> remainingBlockCount r = 2
      | _ \<Rightarrow> False)"
proof -
  let ?s = "exampleSettings\<lparr>artboards := [], maxAttemptCount := Some 2\<rparr>"
  have h: "artboards ?s = []" "\<not> debugBinBounds ?s" "items ?s \<noteq> []"
    "\<forall>n. maxAttemptCount ?s = Some n \<longrightarrow> 0 \<le> n" "maxAttemptCount ?s = Some 2"
    "\<not> doNotSort ?s" "length (items ?s) = 2" "budget ?s False = 2"
    by (simp_all add: exampleSettings_def budget_def maxAttemptCountOf_def)
  from no_bins_run [OF h(1-4), of exampleHost False] show ?thesis
    using h by (auto simp: nothingPacked_def)
qed

text \<open>
  Claim C9 as amended. For an item count of 0, \<open>getMaxAttemptCount\<close> gives
  \<open>-Infinity\<close>, so with no \<open>maxAttemptCount\<close> set the attempts loop makes no attempt;
  and the script itself answers an empty selection with the alert
  \<open>Please select some items and try again.\<close> before any packing run starts, so that
  no list of packed or remaining items is produced.
\<close>

theorem zero_items:
  "getMaxAttemptCount 0 = MinusInfinity
   \<and> (items s = [] \<and> (maxAttemptCount s = None \<or> maxAttemptCount s = Some 0) \<longrightarrow>
        budget s False = 0 \<and> runLog hst s False = [])
   \<and> script hst ui showUI progressWindow documentsLength [] boards =
        Alerted ''Please select some items and try again.''"
proof -
  have b: "budget s False = 0"
    if "items s = []" "maxAttemptCount s = None \<or> maxAttemptCount s = Some 0"
    using that by (auto simp: budget_def maxAttemptCountOf_def getMaxAttemptCount_def)
  have "runLog hst s False = []" if "budget s False = 0"
    using runLog_valid [of s False hst] that by (cases "runLog hst s False") auto
  then show ?thesis
    using b by (auto simp: getMaxAttemptCount_def script_def)
qed

text \<open>
  Claim C9 says that a packing run on zero items returns a result with empty lists and
  raises no error. \<open>packItemsIllustrator\<close> on no items makes no attempt and then
  reads a property of the undefined \<open>bestAttempt\<close>: a TypeError.
\<close>

theorem zero_items_counterexample:
  "length (items (exampleSettings\<lparr>items := [], maxAttemptCount := None\<rparr>)) = 0
   \<and> packItemsIllustrator exampleHost (exampleSettings\<lparr>items := [], maxAttemptCount := None\<rparr>) False
       = Inl TypeError"
  by code_simp

theorem zero_items_witness:
  "items (exampleSettings\<lparr>items := [], maxAttemptCount := None\<rparr>) = []
   \<and> maxAttemptCount (exampleSettings\<lparr>items := [], maxAttemptCount := None\<rparr>) = None
   \<and> budget (exampleSettings\<lparr>items := [], maxAttemptCount := None\<rparr>) False = 0
   \<and> runLog exampleHost (exampleSettings\<lparr>items := [], maxAttemptCount := None\<rparr>) False = []
   \<and> script exampleHost (\<lambda>st. (1, st)) True True 1 [] [(0, 0, 100, - 100)] =
        Alerted ''Please select some items and try again.''"
  using zero_items [of "exampleSettings\<lparr>items := [], maxAttemptCount := None\<rparr>" exampleHost
      "\<lambda>st. (1, st)" True True 1 "[(0, 0, 100, - 100)]"]
  by (simp add: exampleSettings_def)

section \<open>No overlap and containment\<close>

text \<open>
  With exact sums and differences both invariants hold, by the invariant \<open>fitInv\<close> of
  the loop of \<open>fit\<close>: for a bin of positive width and height and blocks of positive
  dimensions not yet placed, any two distinct blocks of the returned \<open>packedBlocks\<close>
  have placement rectangles \<open>[x0, x0 + w] \<times> [y0, y0 + h]\<close> whose intersection has area
  0, and every one of them lies in the bin.
\<close>

lemma exact_fit_no_overlap:
  assumes "0 < W" "0 < H" "\<forall>b \<in> set blocks. pending b"
    and "i < length (packedBlocks (fit (Packer W H allow) blocks k))"
    and "j < length (packedBlocks (fit (Packer W H allow) blocks k))"
    and "i \<noteq> j"
  shows "overlapArea (packedBlocks (fit (Packer W H allow) blocks k) ! i)
                     (packedBlocks (fit (Packer W H allow) blocks k) ! j) = 0
         \<and> binIndex (packedBlocks (fit (Packer W H allow) blocks k) ! i) = Some k
         \<and> binIndex (packedBlocks (fit (Packer W H allow) blocks k) ! j) = Some k"
proof -
  let ?ps = "packedBlocks (fit (Packer W H allow) blocks k)"
  from fit_inv [OF assms(1-3), of allow k]
  have pl: "\<forall>p \<in> set ?ps. placed W H p" and pa: "pairwiseApart ?ps" by auto
  have pi: "placed W H (?ps ! i)" and pj: "placed W H (?ps ! j)"
    using pl assms(4,5) by auto
  have "apart (?ps ! i) (?ps ! j)"
  proof (cases "i < j")
    case True
    then show ?thesis using pa assms(5) by (simp add: pairwiseApart_def)
  next
    case False
    then have "j < i" using assms(6) by simp
    then have "apart (?ps ! j) (?ps ! i)" using pa assms(4) by (simp add: pairwiseApart_def)
    then show ?thesis by (auto simp: apart_def)
  qed
  then have "overlapArea (?ps ! i) (?ps ! j) = 0" by (rule apart_overlapArea [OF pi pj])
  moreover have "binIndex (?ps ! i) = Some k" "binIndex (?ps ! j) = Some k"
    using fit_binIndex [of "Packer W H allow" blocks k] assms(3-5) by auto
  ultimately show ?thesis by simp
qed

lemma exact_fit_containment:
  assumes "0 < W" "0 < H" "\<forall>b \<in> set blocks. pending b"
    and "p \<in> set (packedBlocks (fit (Packer W H allow) blocks k))"
  shows "0 \<le> x0 p \<and> 0 \<le> y0 p \<and> x0 p + w p \<le> W \<and> y0 p + h p \<le> H"
  using fit_inv [OF assms(1-3), of allow k] assms(4)
  by (auto simp: placed_def inBin_def)

text \<open>The rounding of \<open>dbl\<close> on the numbers used below: \<open>0.1 + 0.2\<close> is the double above
  \<open>0.3\<close>; \<open>2.9 - 0.7\<close> is \<open>2.2\<close>, and \<open>0.7 + 2.2\<close> is the double above \<open>2.9\<close>.\<close>

lemma dbl_examples:
  "dbl 1 = 1 \<and> dbl (1 / 2) = 1 / 2 \<and> dbl (- 5 / 2) = - 5 / 2 \<and> dbl 100 = 100
   \<and> dbl (3 / 10) = 5404319552844595 / 2 ^ 54
   \<and> dbl (dbl (1 / 10) + dbl (2 / 10)) = 5404319552844596 / 2 ^ 54
   \<and> dbl (7 / 10) = 6305039478318694 / 2 ^ 53
   \<and> dbl (22 / 10) = 4953959590107546 / 2 ^ 51
   \<and> dbl (29 / 10) = 6530219459687219 / 2 ^ 51
   \<and> dbl (dbl (29 / 10) - dbl (7 / 10)) = dbl (22 / 10)
   \<and> dbl (dbl (7 / 10) + dbl (22 / 10)) = 6530219459687220 / 2 ^ 51"
  by code_simp

text \<open>On the two lists of blocks the exact model leaves the block of 2.2 by 1
  unpacked: the exact difference \<open>2.9 - 0.7\<close> of the doubles is less than the double
  \<open>2.2\<close>.\<close>

lemma exact_fit_examples:
  "map index (packedBlocks (fit (Packer (dbl (29 / 10)) 1 False) twoBlocks 0)) = [0]
   \<and> map index (packedBlocks (fit (Packer 5 2 False) fourBlocks 0)) = [0, 1, 2]"
  by code_simp

text \<open>
  Claim C1. No-overlap invariant: for every call to \<open>fit\<close> on a bin of positive width
  and height with blocks of positive dimensions, any two distinct blocks of the returned
  \<open>packedBlocks\<close> with the same bin index have placement rectangles
  \<open>[x0, x0 + w] \<times> [y0, y0 + h]\<close> whose intersection has area 0. In double precision
  \<open>fit\<close> breaks it: on the bin of 5 by 2 with the blocks 0.7 by 1, 2.9 by 1, 2 by 2 and
  2.2 by 1 (not yet placed, rotation not allowed) all four blocks are packed in bin 0;
  the block of 2 by 2 is placed at \<open>x0 = 2.9\<close>, \<open>y0 = 0\<close>, and the block of 2.2 by 1 at
  \<open>x0 = 0.7\<close>, \<open>y0 = 0\<close> in the region that ends at \<open>x1 = 2.9\<close>, with \<open>x1\<close> set to the
  double above 2.9; the two placement rectangles intersect in a strip of width
  \<open>2 ^ -52\<close> and height 1.
\<close>

theorem no_overlap_failing_input:
  "pending (fourBlocks ! 0) \<and> pending (fourBlocks ! 1) \<and> pending (fourBlocks ! 2)
   \<and> pending (fourBlocks ! 3)
   \<and> (let ps = packedBlocks (fitD (Packer 5 2 False) fourBlocks 0)
      in map index ps = [0, 1, 2, 3]
       \<and> map binIndex ps = [Some 0, Some 0, Some 0, Some 0]
       \<and> x0 (ps ! 2) = dbl (29 / 10) \<and> y0 (ps ! 2) = 0 \<and> w (ps ! 2) = 2 \<and> h (ps ! 2) = 2
       \<and> x0 (ps ! 3) = dbl (7 / 10) \<and> y0 (ps ! 3) = 0
       \<and> w (ps ! 3) = dbl (22 / 10) \<and> h (ps ! 3) = 1
       \<and> x1 (ps ! 3) = dbl (dbl (7 / 10) + dbl (22 / 10))
       \<and> dbl (29 / 10) < dbl (7 / 10) + dbl (22 / 10)
       \<and> overlapArea (ps ! 2) (ps ! 3) = 1 / 2 ^ 52)"
  by code_simp

text \<open>
  Claim C2. Containment invariant: for every call to \<open>fit\<close> on a bin of positive width
  \<open>W\<close> and height \<open>H\<close> with blocks of positive dimensions, every block of the returned
  \<open>packedBlocks\<close> has \<open>0 \<le> x0\<close>, \<open>0 \<le> y0\<close>, \<open>x0 + w \<le> W\<close> and \<open>y0 + h \<le> H\<close>. In double
  precision \<open>fit\<close> breaks it: on the bin of 2.9 by 1 with the blocks 0.7 by 1 and
  2.2 by 1 (not yet placed, rotation not allowed) both blocks are packed; the second is
  placed at \<open>x0 = 0.7\<close>, because \<open>2.2 \<le> 2.9 - 0.7\<close> holds of the rounded difference, and
  its \<open>x0 + w\<close> exceeds \<open>W\<close> by \<open>2 ^ -52\<close>, as does the \<open>x1\<close> that \<open>findInHeap\<close> stores.
\<close>

theorem containment_failing_input:
  "0 < dbl (29 / 10) \<and> pending (twoBlocks ! 0) \<and> pending (twoBlocks ! 1)
   \<and> (let ps = packedBlocks (fitD (Packer (dbl (29 / 10)) 1 False) twoBlocks 0)
      in map index ps = [0, 1]
       \<and> x0 (ps ! 1) = dbl (7 / 10) \<and> w (ps ! 1) = dbl (22 / 10)
       \<and> dbl (29 / 10) < x0 (ps ! 1) + w (ps ! 1)
       \<and> x0 (ps ! 1) + w (ps ! 1) - dbl (29 / 10) = 1 / 2 ^ 52
       \<and> x1 (ps ! 1) = dbl (29 / 10) + 1 / 2 ^ 51)"
  by code_simp

section \<open>First fit\<close>



section \<open>Unplaced blocks\<close>

text \<open>
  Claim C5 says that every block in \<open>remainingBlocks\<close> is in the state it had on
  entry. With rotation allowed this fails: the block of 80 by 40 does not fit the bin
  of 50 by 50 in either orientation and is returned rotated, 40 by 80.
\<close>

theorem remaining_unchanged_counterexample:
  "remainingBlocks (fit (Packer 50 50 True) [wideBlock] 0) = [rotateBlock wideBlock]
   \<and> \<not> isRotated wideBlock \<and> w wideBlock = 80 \<and> h wideBlock = 40
   \<and> isRotated (rotateBlock wideBlock) \<and> w (rotateBlock wideBlock) = 40
   \<and> h (rotateBlock wideBlock) = 80"
  by code_simp

text \<open>
  Claim C5 as amended. The blocks in \<open>remainingBlocks\<close> are blocks of the input, in
  input order; such a block is returned unchanged when rotation is not allowed or the
  block is square, and otherwise after exactly one \<open>rotate\<close>, which toggles
  \<open>isRotated\<close>, takes \<open>w\<close>, \<open>h\<close>, \<open>dx\<close> and \<open>dy\<close> from the other dimension set and
  leaves the position, index, bin index, packed flag and both dimension sets as they
  were.
\<close>

theorem remaining_blocks_state:
  "(\<exists>bs. subseq bs blocks \<and>
      remainingBlocks (fit this blocks k) =
        map (\<lambda>b. if allow90DegreeRotation this \<and> w b \<noteq> h b then rotateBlock b else b) bs)
   \<and> isRotated (rotateBlock b) = (if w b = h b then isRotated b else \<not> isRotated b)
   \<and> w (rotateBlock b) =
       (if w b = h b then w b
        else if isRotated b then dims_w (dimensions b) else dims_w (rotatedDimensions b))
   \<and> h (rotateBlock b) =
       (if w b = h b then h b
        else if isRotated b then dims_h (dimensions b) else dims_h (rotatedDimensions b))
   \<and> dx (rotateBlock b) =
       (if w b = h b then dx b
        else if isRotated b then dims_dx (dimensions b) else dims_dx (rotatedDimensions b))
   \<and> dy (rotateBlock b) =
       (if w b = h b then dy b
        else if isRotated b then dims_dy (dimensions b) else dims_dy (rotatedDimensions b))
   \<and> x0 (rotateBlock b) = x0 b \<and> y0 (rotateBlock b) = y0 b
   \<and> x1 (rotateBlock b) = x1 b \<and> y1 (rotateBlock b) = y1 b
   \<and> index (rotateBlock b) = index b \<and> binIndex (rotateBlock b) = binIndex b
   \<and> packed (rotateBlock b) = packed b
   \<and> dimensions (rotateBlock b) = dimensions b
   \<and> rotatedDimensions (rotateBlock b) = rotatedDimensions b"
proof -
  have eq: "(\<lambda>b. if allow90DegreeRotation this \<and> w b \<noteq> h b then rotateBlock b else b)
          = (\<lambda>b. if allow90DegreeRotation this then rotateBlock b else b)"
    by (auto simp: rotateBlock_def)
  let ?st0 = "\<lparr>count = 0, area = 0, packedBlocks = [], remainingBlocks = [],
                 heap = [\<lparr>x0 = 0, y0 = 0, x1 = root_w this, y1 = root_h this\<rparr>]\<rparr>"
  have rot: "isRotated (rotateBlock b) = (if w b = h b then isRotated b else \<not> isRotated b)"
    "w (rotateBlock b) =
       (if w b = h b then w b
        else if isRotated b then dims_w (dimensions b) else dims_w (rotatedDimensions b))"
    "h (rotateBlock b) =
       (if w b = h b then h b
        else if isRotated b then dims_h (dimensions b) else dims_h (rotatedDimensions b))"
    "dx (rotateBlock b) =
       (if w b = h b then dx b
        else if isRotated b then dims_dx (dimensions b) else dims_dx (rotatedDimensions b))"
    "dy (rotateBlock b) =
       (if w b = h b then dy b
        else if isRotated b then dims_dy (dimensions b) else dims_dy (rotatedDimensions b))"
    by (simp_all add: rotateBlock_def Let_def)
  from foldl_fitBlock_remaining [of blocks this k ?st0]
  show ?thesis unfolding eq using rot by (simp add: fit_def Let_def)
qed

end
